theory Spec2Isabelle
  imports Main
begin

section \<open>JavaScript values\<close>

text \<open>
  The values that \<open>server.js\<close> handles are the ones \<open>JSON.parse\<close> produces (from a request
  body or from a data file), plus \<open>undefined\<close>, which destructuring yields for a missing
  field. An object is its list of own properties in property order; an array is its list
  of elements.

  Limits of the model: numbers are integers (\<open>Date.now()\<close> is one; a number with a
  fraction or an exponent is outside the model); a character is one code unit below 256;
  property order is creation order (the runtime moves keys that are canonical array
  indices to the front, which no handler depends on).
\<close>

datatype jsval =
    JUndefined
  | JNull
  | JBool bool
  | JNum int
  | JStr string
  | JArr "jsval list"
  | JObj "(string \<times> jsval) list"

type_synonym props = "(string \<times> jsval) list"

text \<open>Why the model's \<open>JSON.parse\<close> gives no value: the text is not JSON, it is JSON
  outside the model (see above), or the parser's fuel ran out.\<close>

datatype parse_failure = BadSyntax | Unmodelled | OutOfFuel

text \<open>The errors thrown: \<open>ENOENT\<close> is the only one with that \<open>code\<close>.\<close>

datatype js_error = ENOENT | SyntaxError parse_failure | TypeError

text \<open>Reading a property of an object that may lack it: \<open>o.k\<close> is \<open>undefined\<close> then.\<close>

definition obj_get :: "props \<Rightarrow> string \<Rightarrow> jsval" where
  "obj_get ps k = (case map_of ps k of None \<Rightarrow> JUndefined | Some v \<Rightarrow> v)"

text \<open>Defining a property: an existing key keeps its place and takes the new value, a new
  key goes last.\<close>

fun obj_set :: "string \<Rightarrow> jsval \<Rightarrow> props \<Rightarrow> props" where
  "obj_set k v [] = [(k, v)]"
| "obj_set k v (p # ps) = (if fst p = k then (k, v) # ps else p # obj_set k v ps)"

text \<open>The spread \<open>{ ...target, ...src }\<close>: the properties of \<open>src\<close> are defined on the
  target one after the other.\<close>

fun obj_spread :: "props \<Rightarrow> props \<Rightarrow> props" where
  "obj_spread target [] = target"
| "obj_spread target (p # ps) = obj_spread (obj_set (fst p) (snd p) target) ps"

text \<open>\<open>v.k\<close> for a name \<open>k\<close> that no prototype defines (here \<open>email\<close>): a \<open>TypeError\<close> on
  \<open>null\<close> and \<open>undefined\<close>, the own property on an object, \<open>undefined\<close> on anything
  else.\<close>

fun get_prop :: "jsval \<Rightarrow> string \<Rightarrow> js_error + jsval" where
  "get_prop JUndefined k = Inl TypeError"
| "get_prop JNull k = Inl TypeError"
| "get_prop (JObj ps) k = Inr (obj_get ps k)"
| "get_prop v k = Inr JUndefined"

text \<open>\<open>a === b\<close> for two values that come from different \<open>JSON.parse\<close> calls (or from
  literals): primitives are compared by value, and an object or an array is never
  identical to one from elsewhere.\<close>

fun strict_eq :: "jsval \<Rightarrow> jsval \<Rightarrow> bool" where
  "strict_eq JUndefined JUndefined = True"
| "strict_eq JNull JNull = True"
| "strict_eq (JBool a) (JBool b) = (a = b)"
| "strict_eq (JNum a) (JNum b) = (a = b)"
| "strict_eq (JStr a) (JStr b) = (a = b)"
| "strict_eq a b = False"

text \<open>Truthiness, as \<open>if (x)\<close> tests it.\<close>

fun truthy :: "jsval \<Rightarrow> bool" where
  "truthy JUndefined = False"
| "truthy JNull = False"
| "truthy (JBool b) = b"
| "truthy (JNum n) = (n \<noteq> 0)"
| "truthy (JStr s) = (s \<noteq> [])"
| "truthy (JArr xs) = True"
| "truthy (JObj ps) = True"

text \<open>\<open>v.length\<close>.\<close>

fun js_length :: "jsval \<Rightarrow> js_error + jsval" where
  "js_length JUndefined = Inl TypeError"
| "js_length JNull = Inl TypeError"
| "js_length (JArr xs) = Inr (JNum (int (length xs)))"
| "js_length (JStr s) = Inr (JNum (int (length s)))"
| "js_length (JObj ps) = Inr (obj_get ps ''length'')"
| "js_length v = Inr JUndefined"

section \<open>\<open>JSON.stringify(value, null, 2)\<close>\<close>

definition dquote :: char where "dquote = CHR 0x22"
definition bslash :: char where "bslash = CHR 0x5C"
definition newline :: char where "newline = CHR 0x0A"

definition digit_char :: "nat \<Rightarrow> char" where
  "digit_char d = char_of (48 + d)"

fun show_nat :: "nat \<Rightarrow> string" where
  "show_nat n = (if n < 10 then [digit_char n] else show_nat (n div 10) @ [digit_char (n mod 10)])"

declare show_nat.simps [simp del]

definition show_int :: "int \<Rightarrow> string" where
  "show_int i = (if i < 0 then CHR ''-'' # show_nat (nat (- i)) else show_nat (nat i))"

definition hex_char :: "nat \<Rightarrow> char" where
  "hex_char d = (if d < 10 then char_of (48 + d) else char_of (87 + d))"

text \<open>\<open>QuoteJSONString\<close>: the two-character escapes, \<open>\u00XX\<close> for the other control
  characters, everything else as it is.\<close>

definition escape_char :: "char \<Rightarrow> string" where
  "escape_char c =
     (if c = CHR 0x08 then [bslash, CHR ''b'']
      else if c = CHR 0x09 then [bslash, CHR ''t'']
      else if c = CHR 0x0A then [bslash, CHR ''n'']
      else if c = CHR 0x0C then [bslash, CHR ''f'']
      else if c = CHR 0x0D then [bslash, CHR ''r'']
      else if c = dquote then [bslash, dquote]
      else if c = bslash then [bslash, bslash]
      else if (of_char c :: nat) < 32 then
        [bslash, CHR ''u'', CHR ''0'', CHR ''0'',
         hex_char ((of_char c :: nat) div 16), hex_char ((of_char c :: nat) mod 16)]
      else [c])"

definition quote_json :: "string \<Rightarrow> string" where
  "quote_json s = dquote # concat (map escape_char s) @ [dquote]"

definition indent :: "nat \<Rightarrow> string" where
  "indent k = replicate (2 * k) CHR '' ''"

text \<open>The separator between the members of an array or object at depth \<open>k\<close>.\<close>

definition separator :: "nat \<Rightarrow> string" where
  "separator k = CHR '','' # newline # indent k"

fun join :: "string \<Rightarrow> string list \<Rightarrow> string" where
  "join sep [] = []"
| "join sep [x] = x"
| "join sep (x # y # ys) = x @ sep @ join sep (y # ys)"

text \<open>
  \<open>serialize k v\<close> is \<open>SerializeJSONProperty\<close> at indentation depth \<open>k\<close>: \<open>None\<close> stands for
  the result \<open>undefined\<close>. An array element that serializes to \<open>undefined\<close> is written
  \<open>null\<close>; such a property of an object is left out.
\<close>

fun serialize :: "nat \<Rightarrow> jsval \<Rightarrow> string option"
  and serialize_elems :: "nat \<Rightarrow> jsval list \<Rightarrow> string list"
  and serialize_props :: "nat \<Rightarrow> props \<Rightarrow> string list"
where
  "serialize k JUndefined = None"
| "serialize k JNull = Some ''null''"
| "serialize k (JBool b) = Some (if b then ''true'' else ''false'')"
| "serialize k (JNum n) = Some (show_int n)"
| "serialize k (JStr s) = Some (quote_json s)"
| "serialize k (JArr xs) =
     Some (if xs = [] then ''[]''
           else CHR ''['' # newline # indent (Suc k)
                @ join (separator (Suc k)) (serialize_elems (Suc k) xs)
                @ newline # indent k @ '']'')"
| "serialize k (JObj ps) =
     Some (if serialize_props (Suc k) ps = [] then ''{}''
           else CHR ''{'' # newline # indent (Suc k)
                @ join (separator (Suc k)) (serialize_props (Suc k) ps)
                @ newline # indent k @ ''}'')"
| "serialize_elems k [] = []"
| "serialize_elems k (x # xs) =
     (case serialize k x of None \<Rightarrow> ''null'' | Some s \<Rightarrow> s) # serialize_elems k xs"
| "serialize_props k [] = []"
| "serialize_props k (p # ps) =
     (case serialize k (snd p) of
        None \<Rightarrow> serialize_props k ps
      | Some s \<Rightarrow> (quote_json (fst p) @ CHR '':'' # CHR '' '' # s) # serialize_props k ps)"

definition JSON_stringify :: "jsval \<Rightarrow> string option" where
  "JSON_stringify v = serialize 0 v"

section \<open>\<open>JSON.parse\<close>\<close>

definition is_ws :: "char \<Rightarrow> bool" where
  "is_ws c = (c = CHR '' '' \<or> c = CHR 0x09 \<or> c = CHR 0x0A \<or> c = CHR 0x0D)"

definition skip_ws :: "string \<Rightarrow> string" where
  "skip_ws s = dropWhile is_ws s"

definition is_digit :: "char \<Rightarrow> bool" where
  "is_digit c = (48 \<le> (of_char c :: nat) \<and> (of_char c :: nat) \<le> 57)"

definition digit_val :: "char \<Rightarrow> nat" where
  "digit_val c = of_char c - 48"

definition digits_val :: "string \<Rightarrow> nat" where
  "digits_val ds = foldl (\<lambda>a c. 10 * a + digit_val c) 0 ds"

definition hex_val :: "char \<Rightarrow> nat option" where
  "hex_val c =
     (let n = (of_char c :: nat) in
      if 48 \<le> n \<and> n \<le> 57 then Some (n - 48)
      else if 97 \<le> n \<and> n \<le> 102 then Some (n - 87)
      else if 65 \<le> n \<and> n \<le> 70 then Some (n - 55)
      else None)"

definition hex4 :: "char \<Rightarrow> char \<Rightarrow> char \<Rightarrow> char \<Rightarrow> nat option" where
  "hex4 a b c d =
     (case (hex_val a, hex_val b, hex_val c, hex_val d) of
        (Some w, Some x, Some y, Some z) \<Rightarrow> Some (((w * 16 + x) * 16 + y) * 16 + z)
      | _ \<Rightarrow> None)"

text \<open>The character a two-character escape stands for.\<close>

definition unescape :: "char \<Rightarrow> char option" where
  "unescape e =
     (if e = dquote then Some dquote
      else if e = bslash then Some bslash
      else if e = CHR ''/'' then Some CHR ''/''
      else if e = CHR ''b'' then Some (CHR 0x08)
      else if e = CHR ''f'' then Some (CHR 0x0C)
      else if e = CHR ''n'' then Some (CHR 0x0A)
      else if e = CHR ''r'' then Some (CHR 0x0D)
      else if e = CHR ''t'' then Some (CHR 0x09)
      else None)"

definition cons_char ::
  "char \<Rightarrow> parse_failure + (string \<times> string) \<Rightarrow> parse_failure + (string \<times> string)" where
  "cons_char c r = (case r of Inl e \<Rightarrow> Inl e | Inr (s, rest) \<Rightarrow> Inr (c # s, rest))"

text \<open>A string literal, read from behind its opening quote: the characters up to the
  closing quote, and the text after it.\<close>

fun parse_string :: "string \<Rightarrow> parse_failure + (string \<times> string)" where
  "parse_string [] = Inl BadSyntax"
| "parse_string (c # r) =
     (if c = dquote then Inr ([], r)
      else if c = bslash then
        (case r of
           [] \<Rightarrow> Inl BadSyntax
         | e # r1 \<Rightarrow>
             if e = CHR ''u'' then
               (case r1 of
                  h1 # h2 # h3 # h4 # r2 \<Rightarrow>
                    (case hex4 h1 h2 h3 h4 of
                       None \<Rightarrow> Inl BadSyntax
                     | Some n \<Rightarrow>
                         if n < 256 then cons_char (char_of n) (parse_string r2)
                         else Inl Unmodelled)
                | _ \<Rightarrow> Inl BadSyntax)
             else
               (case unescape e of
                  None \<Rightarrow> Inl BadSyntax
                | Some ch \<Rightarrow> cons_char ch (parse_string r1)))
      else if (of_char c :: nat) < 32 then Inl BadSyntax
      else cons_char c (parse_string r))"

text \<open>A number: an optional minus sign, then \<open>0\<close> or a digit string without a leading
  zero. A fraction or an exponent is outside the model.\<close>

definition parse_number :: "string \<Rightarrow> parse_failure + (jsval \<times> string)" where
  "parse_number s =
     (let neg = (s \<noteq> [] \<and> hd s = CHR ''-'');
          s1 = (if neg then tl s else s)
      in case s1 of
           [] \<Rightarrow> Inl BadSyntax
         | c # r \<Rightarrow>
             if \<not> is_digit c then Inl BadSyntax
             else
               let ds = (if c = CHR ''0'' then [c] else takeWhile is_digit s1);
                   rest = drop (length ds) s1
               in if rest \<noteq> [] \<and> hd rest \<in> {CHR ''.'', CHR ''e'', CHR ''E''} then Inl Unmodelled
                  else Inr (JNum ((if neg then - 1 else 1) * int (digits_val ds)), rest))"

text \<open>The literals \<open>null\<close>, \<open>true\<close>, \<open>false\<close>.\<close>

definition parse_literal :: "string \<Rightarrow> jsval \<Rightarrow> string \<Rightarrow> parse_failure + (jsval \<times> string)" where
  "parse_literal word v s =
     (if take (length word) s = word then Inr (v, drop (length word) s) else Inl BadSyntax)"

text \<open>
  Recursive descent over the text, with fuel: each call of \<open>parse_value\<close>,
  \<open>parse_elems\<close> (the elements of an array, from behind \<open>[\<close> or a comma) and
  \<open>parse_members\<close> (the members of an object, with the properties defined so far) uses
  one unit. A repeated key redefines the property, as \<open>obj_set\<close> does.
\<close>

fun parse_value :: "nat \<Rightarrow> string \<Rightarrow> parse_failure + (jsval \<times> string)"
  and parse_elems :: "nat \<Rightarrow> string \<Rightarrow> parse_failure + (jsval list \<times> string)"
  and parse_members :: "nat \<Rightarrow> props \<Rightarrow> string \<Rightarrow> parse_failure + (jsval \<times> string)"
where
  "parse_value 0 s = Inl OutOfFuel"
| "parse_value (Suc n) s =
     (case skip_ws s of
        [] \<Rightarrow> Inl BadSyntax
      | c # r \<Rightarrow>
          if c = CHR ''n'' then parse_literal ''null'' JNull (c # r)
          else if c = CHR ''t'' then parse_literal ''true'' (JBool True) (c # r)
          else if c = CHR ''f'' then parse_literal ''false'' (JBool False) (c # r)
          else if c = dquote then
            (case parse_string r of
               Inl e \<Rightarrow> Inl e
             | Inr (str, r1) \<Rightarrow> Inr (JStr str, r1))
          else if c = CHR ''['' then
            (if skip_ws r \<noteq> [] \<and> hd (skip_ws r) = CHR '']'' then Inr (JArr [], tl (skip_ws r))
             else (case parse_elems n r of
                     Inl e \<Rightarrow> Inl e
                   | Inr (vs, r1) \<Rightarrow> Inr (JArr vs, r1)))
          else if c = CHR ''{'' then
            (if skip_ws r \<noteq> [] \<and> hd (skip_ws r) = CHR ''}'' then Inr (JObj [], tl (skip_ws r))
             else parse_members n [] r)
          else parse_number (c # r))"
| "parse_elems 0 s = Inl OutOfFuel"
| "parse_elems (Suc n) s =
     (case parse_value n s of
        Inl e \<Rightarrow> Inl e
      | Inr (v, r) \<Rightarrow>
          (case skip_ws r of
             [] \<Rightarrow> Inl BadSyntax
           | c # r1 \<Rightarrow>
               if c = CHR '','' then
                 (case parse_elems n r1 of
                    Inl e \<Rightarrow> Inl e
                  | Inr (vs, r2) \<Rightarrow> Inr (v # vs, r2))
               else if c = CHR '']'' then Inr ([v], r1)
               else Inl BadSyntax))"
| "parse_members 0 acc s = Inl OutOfFuel"
| "parse_members (Suc n) acc s =
     (case skip_ws s of
        [] \<Rightarrow> Inl BadSyntax
      | q # r \<Rightarrow>
          if q \<noteq> dquote then Inl BadSyntax
          else
            (case parse_string r of
               Inl e \<Rightarrow> Inl e
             | Inr (key, r1) \<Rightarrow>
                 (case skip_ws r1 of
                    [] \<Rightarrow> Inl BadSyntax
                  | c # r2 \<Rightarrow>
                      if c \<noteq> CHR '':'' then Inl BadSyntax
                      else
                        (case parse_value n r2 of
                           Inl e \<Rightarrow> Inl e
                         | Inr (v, r3) \<Rightarrow>
                             (case skip_ws r3 of
                                [] \<Rightarrow> Inl BadSyntax
                              | d # r4 \<Rightarrow>
                                  if d = CHR '','' then parse_members n (obj_set key v acc) r4
                                  else if d = CHR ''}'' then Inr (JObj (obj_set key v acc), r4)
                                  else Inl BadSyntax)))))"

text \<open>The whole text is one value, with white space around it. The fuel, two units for
  each character and two more, is enough for every text (\<open>JSON_parse_fuel\<close> below).\<close>

definition JSON_parse :: "string \<Rightarrow> parse_failure + jsval" where
  "JSON_parse text =
     (case parse_value (2 * length text + 2) text of
        Inl e \<Rightarrow> Inl e
      | Inr (v, rest) \<Rightarrow> if skip_ws rest = [] then Inr v else Inl BadSyntax)"

section \<open>The data files\<close>

text \<open>
  The directory of the server: the content of each file that exists, by path, and the
  \<open>fs.writeFile\<close> calls made so far (path and text, oldest first). A file is absent or
  holds a text; other failures of the file system are outside the model.
\<close>

record disk =
  files :: "string \<rightharpoonup> string"
  writes :: "(string \<times> string) list"

definition menuFilePath :: string where "menuFilePath = ''menu.json''"
definition ordersFilePath :: string where "ordersFilePath = ''orders.json''"
definition reservationsFilePath :: string where "reservationsFilePath = ''reservations.json''"
definition customersFilePath :: string where "customersFilePath = ''customers.json''"

definition fs_access :: "string \<Rightarrow> disk \<Rightarrow> js_error + unit" where
  "fs_access filePath d = (case files d filePath of None \<Rightarrow> Inl ENOENT | Some t \<Rightarrow> Inr ())"

definition fs_readFile :: "string \<Rightarrow> disk \<Rightarrow> js_error + string" where
  "fs_readFile filePath d = (case files d filePath of None \<Rightarrow> Inl ENOENT | Some t \<Rightarrow> Inr t)"

text \<open>\<open>fs.writeFile(path, data, 'utf8')\<close>: \<open>data\<close> is what \<open>JSON.stringify\<close> returned, and
  \<open>undefined\<close> is rejected with a \<open>TypeError\<close> before anything is written.\<close>

definition fs_writeFile :: "string \<Rightarrow> string option \<Rightarrow> disk \<Rightarrow> (js_error + unit) \<times> disk" where
  "fs_writeFile filePath data d =
     (case data of
        None \<Rightarrow> (Inl TypeError, d)
      | Some t \<Rightarrow>
          (Inr (), d\<lparr>files := (files d)(filePath \<mapsto> t), writes := writes d @ [(filePath, t)]\<rparr>))"

definition writeData :: "string \<Rightarrow> jsval \<Rightarrow> disk \<Rightarrow> (js_error + unit) \<times> disk" where
  "writeData filePath data d = fs_writeFile filePath (JSON_stringify data) d"

text \<open>The \<open>try\<close> block of \<open>readData\<close>, then the function with its \<open>catch\<close>: only
  \<open>ENOENT\<close> is handled, by writing an empty array; any other error is thrown again.\<close>

definition readData_try :: "string \<Rightarrow> disk \<Rightarrow> js_error + jsval" where
  "readData_try filePath d =
     (case fs_access filePath d of
        Inl e \<Rightarrow> Inl e
      | Inr u \<Rightarrow>
          (case fs_readFile filePath d of
             Inl e \<Rightarrow> Inl e
           | Inr data \<Rightarrow>
               if data = [] then Inr (JArr [])
               else (case JSON_parse data of Inl f \<Rightarrow> Inl (SyntaxError f) | Inr v \<Rightarrow> Inr v)))"

definition readData :: "string \<Rightarrow> disk \<Rightarrow> (js_error + jsval) \<times> disk" where
  "readData filePath d =
     (case readData_try filePath d of
        Inr v \<Rightarrow> (Inr v, d)
      | Inl error \<Rightarrow>
          if error = ENOENT then
            (case writeData filePath (JArr []) d of
               (Inl e, d1) \<Rightarrow> (Inl e, d1)
             | (Inr u, d1) \<Rightarrow> (Inr (JArr []), d1))
          else (Inl error, d))"

section \<open>The routes\<close>

text \<open>
  What a handler sends: \<open>res.status(n).json(v)\<close> (the value \<open>v\<close> is what the handler passes;
  on the wire it is serialized, so its \<open>undefined\<close> properties do not reach the client),
  \<open>res.status(n).send(text)\<close>, or the CSV download
  \<open>res.header('Content-Type', 'text/csv').attachment(name).send(csv)\<close>.
  \<open>req.body\<close> is the object that \<open>express.json()\<close> parsed, given by its properties
  (an array body has none of the properties that the handlers name).
\<close>

datatype response =
    Json nat jsval
  | Send nat string
  | Attachment string string

text \<open>The clock of one request: what \<open>Date.now()\<close> returns and what
  \<open>new Date().toISOString()\<close> returns.\<close>

record clock =
  now :: int
  iso :: string

definition message :: "string \<Rightarrow> jsval" where
  "message t = JObj [(''message'', JStr t)]"

subsection \<open>\<open>GET /api/menu\<close> and \<open>GET /api/customers\<close>\<close>

definition get_menu :: "disk \<Rightarrow> response \<times> disk" where
  "get_menu d =
     (case readData menuFilePath d of
        (Inl e, d1) \<Rightarrow> (Json 500 (message ''Error loading menu''), d1)
      | (Inr menuData, d1) \<Rightarrow> (Json 200 menuData, d1))"

definition get_customers :: "disk \<Rightarrow> response \<times> disk" where
  "get_customers d =
     (case readData customersFilePath d of
        (Inl e, d1) \<Rightarrow> (Json 500 (message ''Error loading customers''), d1)
      | (Inr customers, d1) \<Rightarrow> (Json 200 customers, d1))"

subsection \<open>\<open>POST /api/signup\<close>\<close>

text \<open>\<open>customers.find(customer => customer.email === email)\<close> on the elements of an
  array: the first element whose test holds, \<open>undefined\<close> when there is none, and the
  \<open>TypeError\<close> of reading \<open>email\<close> from \<open>null\<close>.\<close>

fun find_email :: "jsval list \<Rightarrow> jsval \<Rightarrow> js_error + jsval" where
  "find_email [] email = Inr JUndefined"
| "find_email (customer # rest) email =
     (case get_prop customer ''email'' of
        Inl e \<Rightarrow> Inl e
      | Inr v \<Rightarrow> if strict_eq v email then Inr customer else find_email rest email)"

definition post_signup :: "clock \<Rightarrow> props \<Rightarrow> disk \<Rightarrow> response \<times> disk" where
  "post_signup clk body d =
     (let name = obj_get body ''name''; email = obj_get body ''email'';
          phone = obj_get body ''phone''; street = obj_get body ''street'';
          city = obj_get body ''city''; state = obj_get body ''state'';
          pincode = obj_get body ''pincode''; dob = obj_get body ''dob'';
          password = obj_get body ''password'';
          failed = Json 500 (message ''Failed to register customer.'')
      in case readData customersFilePath d of
           (Inl e, d1) \<Rightarrow> (failed, d1)
         | (Inr (JArr customers), d1) \<Rightarrow>
             (case find_email customers email of
                Inl e \<Rightarrow> (failed, d1)
              | Inr existingCustomer \<Rightarrow>
                  if truthy existingCustomer then
                    (Json 400 (message ''A customer with this email already exists.''), d1)
                  else
                    let newCustomer =
                          JObj [(''id'', JNum (now clk)), (''name'', name), (''email'', email),
                                (''phone'', phone), (''street'', street), (''city'', city),
                                (''state'', state), (''pincode'', pincode), (''dob'', dob),
                                (''signupDate'', JStr (iso clk))]
                    in case writeData customersFilePath (JArr (customers @ [newCustomer])) d1 of
                         (Inl e, d2) \<Rightarrow> (failed, d2)
                       | (Inr u, d2) \<Rightarrow>
                           (Json 201 (JObj [(''message'', JStr ''Customer registered successfully!''),
                                            (''customer'', newCustomer)]), d2))
         | (Inr other, d1) \<Rightarrow> (failed, d1))"

subsection \<open>\<open>POST /api/orders\<close> and \<open>POST /api/reservations\<close>\<close>

text \<open>The object literal \<open>{ id: Date.now(), date: new Date().toISOString(), ...req.body }\<close>:
  \<open>id\<close> and \<open>date\<close> are defined first, then the properties of the body are spread over
  them.\<close>

definition new_record :: "clock \<Rightarrow> props \<Rightarrow> jsval" where
  "new_record clk body = JObj (obj_spread [(''id'', JNum (now clk)), (''date'', JStr (iso clk))] body)"

definition post_orders :: "clock \<Rightarrow> props \<Rightarrow> disk \<Rightarrow> response \<times> disk" where
  "post_orders clk body d =
     (let newOrder = new_record clk body;
          failed = Json 500 (message ''Failed to save order'')
      in case readData ordersFilePath d of
           (Inl e, d1) \<Rightarrow> (failed, d1)
         | (Inr (JArr orders), d1) \<Rightarrow>
             (case writeData ordersFilePath (JArr (orders @ [newOrder])) d1 of
                (Inl e, d2) \<Rightarrow> (failed, d2)
              | (Inr u, d2) \<Rightarrow>
                  (Json 201 (JObj [(''message'', JStr ''Order received!''), (''order'', newOrder)]), d2))
         | (Inr other, d1) \<Rightarrow> (failed, d1))"

definition post_reservations :: "clock \<Rightarrow> props \<Rightarrow> disk \<Rightarrow> response \<times> disk" where
  "post_reservations clk body d =
     (let newReservation = new_record clk body;
          failed = Json 500 (message ''Failed to save reservation'')
      in case readData reservationsFilePath d of
           (Inl e, d1) \<Rightarrow> (failed, d1)
         | (Inr (JArr reservations), d1) \<Rightarrow>
             (case writeData reservationsFilePath (JArr (reservations @ [newReservation])) d1 of
                (Inl e, d2) \<Rightarrow> (failed, d2)
              | (Inr u, d2) \<Rightarrow>
                  (Json 201 (JObj [(''message'', JStr ''Reservation received!''),
                                   (''reservation'', newReservation)]), d2))
         | (Inr other, d1) \<Rightarrow> (failed, d1))"

subsection \<open>\<open>POST /api/update-menu\<close>\<close>

definition post_update_menu :: "props \<Rightarrow> disk \<Rightarrow> response \<times> disk" where
  "post_update_menu body d =
     (let password = obj_get body ''password''; menu = obj_get body ''menu''
      in if \<not> strict_eq password (JStr ''themomchef@123'') then
           (Json 401 (message ''Unauthorized''), d)
         else
           (case writeData menuFilePath menu d of
              (Inl e, d1) \<Rightarrow> (Json 500 (message ''Failed to update menu''), d1)
            | (Inr u, d1) \<Rightarrow> (Json 200 (message ''Menu updated successfully!''), d1)))"

subsection \<open>The export routes\<close>

text \<open>\<open>x.length === 0\<close>.\<close>

definition length_is_zero :: "jsval \<Rightarrow> js_error + bool" where
  "length_is_zero x = (case js_length x of Inl e \<Rightarrow> Inl e | Inr n \<Rightarrow> Inr (strict_eq n (JNum 0)))"

text \<open>\<open>new Parser().parse\<close> of the \<open>json2csv\<close> package is not part of the repository: the
  export routes take it as the parameter \<open>csv\<close>, a function that returns the CSV text or
  throws.\<close>

definition get_export_orders :: "(jsval \<Rightarrow> js_error + string) \<Rightarrow> disk \<Rightarrow> response \<times> disk" where
  "get_export_orders csv d =
     (let failed = Json 500 (message ''Failed to export orders.'')
      in case readData ordersFilePath d of
           (Inl e, d1) \<Rightarrow> (failed, d1)
         | (Inr orders, d1) \<Rightarrow>
             (case length_is_zero orders of
                Inl e \<Rightarrow> (failed, d1)
              | Inr True \<Rightarrow> (Send 200 ''No orders to export.'', d1)
              | Inr False \<Rightarrow>
                  (case csv orders of
                     Inl e \<Rightarrow> (failed, d1)
                   | Inr text \<Rightarrow> (Attachment ''orders.csv'' text, d1))))"

definition get_export_reservations :: "(jsval \<Rightarrow> js_error + string) \<Rightarrow> disk \<Rightarrow> response \<times> disk" where
  "get_export_reservations csv d =
     (let failed = Json 500 (message ''Failed to export reservations.'')
      in case readData reservationsFilePath d of
           (Inl e, d1) \<Rightarrow> (failed, d1)
         | (Inr reservations, d1) \<Rightarrow>
             (case length_is_zero reservations of
                Inl e \<Rightarrow> (failed, d1)
              | Inr True \<Rightarrow> (Send 200 ''No reservations to export.'', d1)
              | Inr False \<Rightarrow>
                  (case csv reservations of
                     Inl e \<Rightarrow> (failed, d1)
                   | Inr text \<Rightarrow> (Attachment ''reservations.csv'' text, d1))))"

definition get_export_customers :: "(jsval \<Rightarrow> js_error + string) \<Rightarrow> disk \<Rightarrow> response \<times> disk" where
  "get_export_customers csv d =
     (let failed = Json 500 (message ''Failed to export customers.'')
      in case readData customersFilePath d of
           (Inl e, d1) \<Rightarrow> (failed, d1)
         | (Inr customers, d1) \<Rightarrow>
             (case length_is_zero customers of
                Inl e \<Rightarrow> (failed, d1)
              | Inr True \<Rightarrow> (Send 200 ''No customers to export.'', d1)
              | Inr False \<Rightarrow>
                  (case csv customers of
                     Inl e \<Rightarrow> (failed, d1)
                   | Inr text \<Rightarrow> (Attachment ''customers.csv'' text, d1))))"

section \<open>Vocabulary of the properties\<close>

text \<open>A record of a collection is an object.\<close>

fun is_object :: "jsval \<Rightarrow> bool" where
  "is_object (JObj ps) = True"
| "is_object v = False"

text \<open>
  A JSON value as \<open>JSON.parse\<close> builds it: no \<open>undefined\<close> anywhere, and no key twice in
  an object. Request bodies and the contents of parsed files are of this kind.
\<close>

fun json_ok :: "jsval \<Rightarrow> bool" where
  "json_ok JUndefined = False"
| "json_ok (JArr xs) = (\<forall>x \<in> set xs. json_ok x)"
| "json_ok (JObj ps) = (distinct (map fst ps) \<and> (\<forall>p \<in> set ps. json_ok (snd p)))"
| "json_ok v = True"

text \<open>The properties that \<open>JSON.stringify\<close> writes: those whose value is not
  \<open>undefined\<close>.\<close>

definition defined_props :: "props \<Rightarrow> props" where
  "defined_props ps = filter (\<lambda>p. snd p \<noteq> JUndefined) ps"

text \<open>The customer object that the signup handler builds from the clock and the body.\<close>

definition signup_record :: "clock \<Rightarrow> props \<Rightarrow> props" where
  "signup_record clk body =
     [(''id'', JNum (now clk)), (''name'', obj_get body ''name''), (''email'', obj_get body ''email''),
      (''phone'', obj_get body ''phone''), (''street'', obj_get body ''street''),
      (''city'', obj_get body ''city''), (''state'', obj_get body ''state''),
      (''pincode'', obj_get body ''pincode''), (''dob'', obj_get body ''dob''),
      (''signupDate'', JStr (iso clk))]"

text \<open>Text after which a number literal ends: nothing, or a character that cannot
  continue it.\<close>

definition num_end :: "string \<Rightarrow> bool" where
  "num_end rest = (rest = [] \<or> (\<not> is_digit (hd rest) \<and> hd rest \<notin> {CHR ''.'', CHR ''e'', CHR ''E''}))"

text \<open>Fuel that is enough to parse the serialization of a value back.\<close>

fun fuel_of :: "jsval \<Rightarrow> nat"
  and fuel_elems :: "jsval list \<Rightarrow> nat"
  and fuel_props :: "props \<Rightarrow> nat"
where
  "fuel_of (JArr xs) = Suc (fuel_elems xs)"
| "fuel_of (JObj ps) = Suc (fuel_props ps)"
| "fuel_of v = 1"
| "fuel_elems [] = 0"
| "fuel_elems (x # xs) = Suc (fuel_of x + fuel_elems xs)"
| "fuel_props [] = 0"
| "fuel_props (p # ps) = Suc (fuel_of (snd p) + fuel_props ps)"

text \<open>
  \<open>parses_back v\<close>: at every depth \<open>v\<close> has a serialization, which starts with a character
  that is neither white space nor a closing bracket, and which \<open>parse_value\<close> reads back
  as \<open>v\<close>, leaving what follows it. \<open>fuel_fits v\<close>: the fuel \<open>v\<close> needs is below twice the
  length of its serialization.
\<close>

definition parses_back :: "jsval \<Rightarrow> bool" where
  "parses_back v \<longleftrightarrow>
     (\<forall>k. \<exists>t. serialize k v = Some t \<and> t \<noteq> [] \<and> \<not> is_ws (hd t)
              \<and> hd t \<noteq> CHR '']'' \<and> hd t \<noteq> CHR ''}''
              \<and> (\<forall>n rest. fuel_of v \<le> n \<and> num_end rest \<longrightarrow> parse_value n (t @ rest) = Inr (v, rest)))"

definition fuel_fits :: "jsval \<Rightarrow> bool" where
  "fuel_fits v \<longleftrightarrow> (\<forall>k. \<exists>t. serialize k v = Some t \<and> t \<noteq> [] \<and> fuel_of v < 2 * length t)"

text \<open>A disk with no file on it, and one request clock, for the examples.\<close>

definition no_files :: disk where
  "no_files = \<lparr>files = Map.empty, writes = []\<rparr>"

definition clock0 :: clock where
  "clock0 = \<lparr>now = 1700000000000, iso = ''2023-11-14T22:13:20.000Z''\<rparr>"

section \<open>Serializing and parsing back\<close>

lemma hex_val_hex_char: "d < 16 \<Longrightarrow> hex_val (hex_char d) = Some d"
  by (auto simp add: hex_val_def hex_char_def Let_def)

lemma hex_val_zero: "hex_val CHR ''0'' = Some 0"
  by (simp add: hex_val_def)

lemma hex4_control: "n < 32 \<Longrightarrow> hex4 CHR ''0'' CHR ''0'' (hex_char (n div 16)) (hex_char (n mod 16)) = Some n"
  by (simp add: hex4_def hex_val_zero hex_val_hex_char)

lemma parse_string_escape: "parse_string (escape_char c @ r) = cons_char c (parse_string r)"
proof -
  consider "c = CHR 0x08" | "c = CHR 0x09" | "c = CHR 0x0A" | "c = CHR 0x0C" | "c = CHR 0x0D"
    | "c = dquote" | "c = bslash"
    | "c \<notin> {CHR 0x08, CHR 0x09, CHR 0x0A, CHR 0x0C, CHR 0x0D, dquote, bslash}" "(of_char c :: nat) < 32"
    | "c \<notin> {CHR 0x08, CHR 0x09, CHR 0x0A, CHR 0x0C, CHR 0x0D, dquote, bslash}" "\<not> (of_char c :: nat) < 32"
    by blast
  then show ?thesis
  proof cases
    case 8
    have "hex4 CHR ''0'' CHR ''0'' (hex_char (of_char c div 16)) (hex_char (of_char c mod 16)) = Some (of_char c)"
      using 8(2) by (rule hex4_control)
    moreover have "(of_char c :: nat) < 256" using 8(2) by simp
    ultimately show ?thesis using 8
      by (simp add: escape_char_def dquote_def bslash_def)
  next
    case 9
    then show ?thesis by (simp add: escape_char_def dquote_def bslash_def)
  qed (simp_all add: escape_char_def dquote_def bslash_def unescape_def)
qed

lemma parse_string_quoted:
  "parse_string (concat (map escape_char s) @ dquote # rest) = Inr (s, rest)"
proof (induction s)
  case Nil
  show ?case by simp
next
  case (Cons c s)
  have "parse_string (concat (map escape_char (c # s)) @ dquote # rest)
      = parse_string (escape_char c @ (concat (map escape_char s) @ dquote # rest))" by simp
  also have "\<dots> = cons_char c (parse_string (concat (map escape_char s) @ dquote # rest))"
    by (rule parse_string_escape)
  also have "\<dots> = Inr (c # s, rest)" by (simp add: Cons.IH cons_char_def)
  finally show ?case .
qed

lemma digit_char_zero: "digit_char 0 = CHR ''0''"
  by code_simp

lemma of_char_digit_char: "d < 10 \<Longrightarrow> (of_char (digit_char d) :: nat) = 48 + d"
  by (simp add: digit_char_def)

lemma is_digit_digit_char: "d < 10 \<Longrightarrow> is_digit (digit_char d)"
  by (simp add: is_digit_def of_char_digit_char)

lemma digit_val_digit_char: "d < 10 \<Longrightarrow> digit_val (digit_char d) = d"
  by (simp add: digit_val_def of_char_digit_char)

lemma show_nat_digits: "\<forall>c \<in> set (show_nat n). is_digit c"
proof (induction n rule: show_nat.induct)
  case (1 n)
  show ?case
  proof (cases "n < 10")
    case True
    then show ?thesis by (simp add: show_nat.simps [of n] is_digit_digit_char)
  next
    case False
    with 1 show ?thesis by (simp add: show_nat.simps [of n] is_digit_digit_char)
  qed
qed

lemma show_nat_nonempty: "show_nat n \<noteq> []"
  by (simp add: show_nat.simps [of n])

lemma digits_val_snoc: "digits_val (ds @ [c]) = 10 * digits_val ds + digit_val c"
  by (simp add: digits_val_def)

lemma digits_val_show_nat: "digits_val (show_nat n) = n"
proof (induction n rule: show_nat.induct)
  case (1 n)
  show ?case
  proof (cases "n < 10")
    case True
    then show ?thesis by (simp add: show_nat.simps [of n] digits_val_def digit_val_digit_char)
  next
    case False
    with 1 have "digits_val (show_nat (n div 10)) = n div 10" by simp
    with False show ?thesis
      by (simp add: show_nat.simps [of n] digits_val_snoc digit_val_digit_char)
  qed
qed

lemma hd_show_nat: "hd (show_nat n) = CHR ''0'' \<longleftrightarrow> n = 0"
proof (induction n rule: show_nat.induct)
  case (1 n)
  show ?case
  proof (cases "n < 10")
    case True
    have "digit_char n = CHR ''0'' \<longleftrightarrow> n = 0"
    proof
      assume "digit_char n = CHR ''0''"
      then have "(of_char (digit_char n) :: nat) = of_char CHR ''0''" by simp
      with True show "n = 0" by (simp add: of_char_digit_char)
    next
      assume "n = 0"
      then show "digit_char n = CHR ''0''" by (simp add: digit_char_zero)
    qed
    with True show ?thesis by (simp add: show_nat.simps [of n])
  next
    case False
    with 1 have "hd (show_nat (n div 10)) = CHR ''0'' \<longleftrightarrow> n div 10 = 0" by simp
    moreover from False have "n div 10 \<noteq> 0" by simp
    ultimately show ?thesis using False
      by (simp add: show_nat.simps [of n] show_nat_nonempty)
  qed
qed

lemma show_nat_zero: "show_nat 0 = ''0''"
  by (simp add: show_nat.simps [of 0] digit_char_zero)

lemma takeWhile_digits:
  assumes "\<forall>c \<in> set ds. is_digit c" and "num_end rest"
  shows "takeWhile is_digit (ds @ rest) = ds"
proof -
  from assms(2) have "takeWhile is_digit rest = []"
    by (cases rest) (auto simp add: num_end_def)
  with assms(1) show ?thesis by (simp add: takeWhile_append2)
qed

lemma parse_number_show_nat:
  assumes "num_end rest"
  shows "parse_number (show_nat n @ rest) = Inr (JNum (int n), rest)"
proof -
  obtain c r where cr: "show_nat n = c # r" using show_nat_nonempty [of n] by (cases "show_nat n") auto
  have dig: "\<forall>c \<in> set (show_nat n). is_digit c" by (rule show_nat_digits)
  with cr have c: "is_digit c" "c \<noteq> CHR ''-''" by (auto simp add: is_digit_def)
  have tw: "takeWhile is_digit (show_nat n @ rest) = show_nat n"
    using dig assms by (rule takeWhile_digits)
  have fin: "\<not> (rest \<noteq> [] \<and> hd rest \<in> {CHR ''.'', CHR ''e'', CHR ''E''})"
    using assms by (auto simp add: num_end_def)
  show ?thesis
  proof (cases "n = 0")
    case True
    then show ?thesis using fin by (simp add: show_nat_zero parse_number_def is_digit_def digits_val_def digit_val_def)
  next
    case False
    with hd_show_nat [of n] cr have c0: "c \<noteq> CHR ''0''" by simp
    have "parse_number (c # r @ rest) = Inr (JNum (int (digits_val (c # r))), rest)"
      using c c0 tw fin unfolding cr
      by (simp add: parse_number_def Let_def)
    then show ?thesis using digits_val_show_nat [of n] by (simp add: cr)
  qed
qed

lemma parse_number_show_int:
  assumes "num_end rest"
  shows "parse_number (show_int i @ rest) = Inr (JNum i, rest)"
proof (cases "i < 0")
  case False
  then show ?thesis using parse_number_show_nat [OF assms, of "nat i"] by (simp add: show_int_def)
next
  case True
  let ?n = "nat (- i)"
  obtain c r where cr: "show_nat ?n = c # r" using show_nat_nonempty [of ?n] by (cases "show_nat ?n") auto
  have dig: "\<forall>c \<in> set (show_nat ?n). is_digit c" by (rule show_nat_digits)
  with cr have c: "is_digit c" by auto
  have tw: "takeWhile is_digit (show_nat ?n @ rest) = show_nat ?n"
    using dig assms by (rule takeWhile_digits)
  have fin: "\<not> (rest \<noteq> [] \<and> hd rest \<in> {CHR ''.'', CHR ''e'', CHR ''E''})"
    using assms by (auto simp add: num_end_def)
  from True have "?n \<noteq> 0" by simp
  with hd_show_nat [of ?n] cr have c0: "c \<noteq> CHR ''0''" by simp
  have "parse_number (CHR ''-'' # c # r @ rest) = Inr (JNum (- int (digits_val (c # r))), rest)"
    using c c0 tw fin unfolding cr
    by (simp add: parse_number_def Let_def)
  then show ?thesis using digits_val_show_nat [of ?n] True by (simp add: cr show_int_def)
qed

lemma show_int_first:
  "\<exists>c r. show_int i = c # r \<and> (c = CHR ''-'' \<or> is_digit c)"
proof -
  obtain c r where cr: "show_nat (nat \<bar>i\<bar>) = c # r"
    using show_nat_nonempty [of "nat \<bar>i\<bar>"] by (cases "show_nat (nat \<bar>i\<bar>)") auto
  with show_nat_digits [of "nat \<bar>i\<bar>"] have "is_digit c" by auto
  with cr show ?thesis by (cases "i < 0") (auto simp add: show_int_def abs_if)
qed

lemma skip_ws_ws: "\<forall>c \<in> set w. is_ws c \<Longrightarrow> skip_ws (w @ s) = skip_ws s"
  by (simp add: skip_ws_def dropWhile_append2)

lemma skip_ws_start: "s \<noteq> [] \<Longrightarrow> \<not> is_ws (hd s) \<Longrightarrow> skip_ws (s @ r) = s @ r"
  by (cases s) (simp_all add: skip_ws_def)

lemma skip_ws_Cons: "\<not> is_ws c \<Longrightarrow> skip_ws (c # s) = c # s"
  by (simp add: skip_ws_def)

lemma is_ws_indent: "\<forall>c \<in> set (indent k). is_ws c"
  by (simp add: indent_def is_ws_def)

lemma is_ws_newline: "is_ws newline"
  by (simp add: is_ws_def newline_def)

lemma parse_value_ws: "\<forall>c \<in> set w. is_ws c \<Longrightarrow> parse_value n (w @ s) = parse_value n s"
  by (cases n) (simp_all add: skip_ws_ws)

lemma parse_elems_ws: "\<forall>c \<in> set w. is_ws c \<Longrightarrow> parse_elems n (w @ s) = parse_elems n s"
  by (cases n) (simp_all add: parse_value_ws)

lemma parse_members_ws: "\<forall>c \<in> set w. is_ws c \<Longrightarrow> parse_members n acc (w @ s) = parse_members n acc s"
  by (cases n) (simp_all add: skip_ws_ws)

lemma ws_not_number: "is_ws c \<Longrightarrow> \<not> is_digit c \<and> c \<noteq> CHR ''.'' \<and> c \<noteq> CHR ''e'' \<and> c \<noteq> CHR ''E''"
  unfolding is_ws_def is_digit_def by (elim disjE) simp_all

lemma num_end_ws: "w \<noteq> [] \<Longrightarrow> \<forall>c \<in> set w. is_ws c \<Longrightarrow> num_end (w @ s)"
  using ws_not_number [of "hd w"] by (cases w) (simp_all add: num_end_def)

lemma num_end_comma: "num_end (CHR '','' # s)"
  by (simp add: num_end_def is_digit_def)

lemma num_end_Nil: "num_end []"
  by (simp add: num_end_def)

lemma not_ws_comma: "\<not> is_ws CHR '',''" "\<not> is_ws CHR '']''" "\<not> is_ws CHR ''}''" "\<not> is_ws CHR '':''" "\<not> is_ws dquote"
  "\<not> is_ws CHR ''[''" "\<not> is_ws CHR ''{''"
  by (simp_all add: is_ws_def dquote_def)

lemma join_Cons: "ys \<noteq> [] \<Longrightarrow> join sep (x # ys) = x @ sep @ join sep ys"
  by (cases ys) simp_all

lemma serialize_props_nonempty:
  "ps \<noteq> [] \<Longrightarrow> \<forall>p \<in> set ps. parses_back (snd p) \<Longrightarrow> serialize_props k ps \<noteq> []"
proof (cases ps)
  case Nil
  then show "ps \<noteq> [] \<Longrightarrow> ?thesis" by simp
next
  case (Cons p qs)
  assume "\<forall>p \<in> set ps. parses_back (snd p)"
  with Cons have "parses_back (snd p)" by simp
  then obtain t where "serialize k (snd p) = Some t" unfolding parses_back_def by blast
  then show ?thesis by (simp add: Cons)
qed


lemma parse_elems_back:
  assumes "xs \<noteq> []" and "\<forall>x \<in> set xs. parses_back x"
    and "fuel_elems xs \<le> n" and "w \<noteq> []" and "\<forall>c \<in> set w. is_ws c"
  shows "parse_elems n (join (separator k) (serialize_elems k xs) @ w @ CHR '']'' # rest) = Inr (xs, rest)"
  using assms(1,2,3)
proof (induction xs arbitrary: n)
  case Nil
  then show ?case by simp
next
  case (Cons x xs)
  from Cons.prems(2) have "parses_back x" by simp
  then obtain t where t: "serialize k x = Some t" "t \<noteq> []" "\<not> is_ws (hd t)"
    and pb: "\<And>n rest. fuel_of x \<le> n \<Longrightarrow> num_end rest \<Longrightarrow> parse_value n (t @ rest) = Inr (x, rest)"
    unfolding parses_back_def by blast
  from Cons.prems(3) obtain m where n: "n = Suc m" and m: "fuel_of x \<le> m" "fuel_elems xs \<le> m"
    by (cases n) auto
  show ?case
  proof (cases xs)
    case Nil
    have "parse_value m (t @ (w @ CHR '']'' # rest)) = Inr (x, w @ CHR '']'' # rest)"
      using m(1) num_end_ws [OF assms(4,5)] by (rule pb)
    moreover have "skip_ws (w @ CHR '']'' # rest) = CHR '']'' # rest"
      using assms(5) by (simp add: skip_ws_ws skip_ws_Cons not_ws_comma)
    ultimately show ?thesis by (simp add: Nil n t)
  next
    case (Cons y ys)
    let ?J = "join (separator k) (serialize_elems k xs)"
    let ?tail = "CHR '','' # newline # indent k @ ?J @ w @ CHR '']'' # rest"
    have ih: "parse_elems m (?J @ w @ CHR '']'' # rest) = Inr (xs, rest)"
      using Cons.IH [where n = m] Cons.prems(2) m(2) Cons by simp
    have ws: "\<forall>c \<in> set (newline # indent k). is_ws c"
      using is_ws_indent is_ws_newline by simp
    have "parse_elems m ((newline # indent k) @ ?J @ w @ CHR '']'' # rest) = Inr (xs, rest)"
      using parse_elems_ws [OF ws] ih by simp
    then have rest_ok: "parse_elems m (newline # indent k @ ?J @ w @ CHR '']'' # rest) = Inr (xs, rest)"
      by simp
    have first: "parse_value m (t @ ?tail) = Inr (x, ?tail)"
      using m(1) num_end_comma by (rule pb)
    have shape: "join (separator k) (serialize_elems k (x # xs)) @ w @ CHR '']'' # rest = t @ ?tail"
      by (simp add: Cons t separator_def)
    have sk: "skip_ws ?tail = ?tail" by (simp add: skip_ws_Cons not_ws_comma)
    show ?thesis
      unfolding shape n
      by (simp add: first sk rest_ok)
  qed
qed


lemma obj_set_new: "k \<notin> fst ` set acc \<Longrightarrow> obj_set k v acc = acc @ [(k, v)]"
  by (induction acc) auto

lemma parse_members_back:
  assumes "ps \<noteq> []" and "\<forall>p \<in> set ps. parses_back (snd p)"
    and "distinct (map fst ps)" and "fst ` set ps \<inter> fst ` set acc = {}"
    and "fuel_props ps \<le> n" and "w \<noteq> []" and "\<forall>c \<in> set w. is_ws c"
  shows "parse_members n acc (join (separator k) (serialize_props k ps) @ w @ CHR ''}'' # rest)
           = Inr (JObj (acc @ ps), rest)"
  using assms(1,2,3,4,5)
proof (induction ps arbitrary: n acc)
  case Nil
  then show ?case by simp
next
  case (Cons p ps)
  obtain key v where p: "p = (key, v)" by (cases p)
  from Cons.prems(2) p have "parses_back v" by simp
  then obtain t where t: "serialize k v = Some t" "t \<noteq> []" "\<not> is_ws (hd t)"
    and pb: "\<And>n rest. fuel_of v \<le> n \<Longrightarrow> num_end rest \<Longrightarrow> parse_value n (t @ rest) = Inr (v, rest)"
    unfolding parses_back_def by blast
  from Cons.prems(5) p obtain m where n: "n = Suc m" and m: "fuel_of v \<le> m" "fuel_props ps \<le> m"
    by (cases n) auto
  from Cons.prems(4) p have new: "key \<notin> fst ` set acc" by auto
  have set_acc: "obj_set key v acc = acc @ [(key, v)]" using new by (rule obj_set_new)
  have key_text: "\<And>r. parse_string (concat (map escape_char key) @ dquote # r) = Inr (key, r)"
    by (rule parse_string_quoted)
  have sp: "\<And>r. parse_value m (CHR '' '' # t @ r) = parse_value m (t @ r)"
    using parse_value_ws [of "[CHR '' '']" m] by (simp add: is_ws_def)
  have sk_q: "\<And>r. skip_ws (dquote # r) = dquote # r" by (simp add: skip_ws_Cons not_ws_comma)
  have sk_c: "\<And>r. skip_ws (CHR '':'' # r) = CHR '':'' # r" by (simp add: skip_ws_Cons not_ws_comma)
  show ?case
  proof (cases ps)
    case Nil
    have val: "parse_value m (t @ (w @ CHR ''}'' # rest)) = Inr (v, w @ CHR ''}'' # rest)"
      using m(1) num_end_ws [OF assms(6,7)] by (rule pb)
    have sk: "skip_ws (w @ CHR ''}'' # rest) = CHR ''}'' # rest"
      using assms(7) by (simp add: skip_ws_ws skip_ws_Cons not_ws_comma)
    have shape: "join (separator k) (serialize_props k (p # ps)) @ w @ CHR ''}'' # rest
                 = dquote # concat (map escape_char key) @ dquote # CHR '':'' # CHR '' '' # t @ w @ CHR ''}'' # rest"
      by (simp add: Nil p t quote_json_def)
    show ?thesis
      unfolding shape n
      by (simp add: Nil p sk_q sk_c key_text sp val sk set_acc)
  next
    case (Cons q qs)
    let ?M = "join (separator k) (serialize_props k ps)"
    let ?tail = "CHR '','' # newline # indent k @ ?M @ w @ CHR ''}'' # rest"
    have disj: "fst ` set ps \<inter> fst ` set (acc @ [(key, v)]) = {}"
      using Cons.prems(3,4) p by auto
    have ih: "parse_members m (acc @ [(key, v)]) (?M @ w @ CHR ''}'' # rest)
                = Inr (JObj ((acc @ [(key, v)]) @ ps), rest)"
      using Cons.IH [where n = m and acc = "acc @ [(key, v)]"] Cons.prems(2,3) disj m(2) Cons by simp
    have ws: "\<forall>c \<in> set (newline # indent k). is_ws c"
      using is_ws_indent is_ws_newline by simp
    have "parse_members m (acc @ [(key, v)]) ((newline # indent k) @ ?M @ w @ CHR ''}'' # rest)
            = Inr (JObj ((acc @ [(key, v)]) @ ps), rest)"
      using parse_members_ws [OF ws] ih by simp
    then have rest_ok: "parse_members m (acc @ [(key, v)]) (newline # indent k @ ?M @ w @ CHR ''}'' # rest)
            = Inr (JObj (acc @ (key, v) # ps), rest)"
      by simp
    have val: "parse_value m (t @ ?tail) = Inr (v, ?tail)"
      using m(1) num_end_comma by (rule pb)
    have sk: "skip_ws ?tail = ?tail" by (simp add: skip_ws_Cons not_ws_comma)
    have shape: "join (separator k) (serialize_props k (p # ps)) @ w @ CHR ''}'' # rest
                 = dquote # concat (map escape_char key) @ dquote # CHR '':'' # CHR '' '' # t @ ?tail"
    proof -
      have "serialize_props k ps \<noteq> []"
        using Cons.prems(2) Cons by (intro serialize_props_nonempty) simp_all
      then show ?thesis
        by (simp add: p t join_Cons separator_def quote_json_def)
    qed
    show ?thesis
      unfolding shape n
      by (simp add: p sk_q sk_c key_text sp val sk set_acc rest_ok)
  qed
qed

lemma join_first: "x \<noteq> [] \<Longrightarrow> join sep (x # ys) \<noteq> [] \<and> hd (join sep (x # ys)) = hd x"
  by (cases ys) simp_all

lemma parse_literal_exact: "parse_literal word v (word @ rest) = Inr (v, rest)"
  by (simp add: parse_literal_def)

lemma parses_back_null: "parses_back JNull"
proof -
  have "parse_value n (''null'' @ rest) = Inr (JNull, rest)" if "1 \<le> n" for n rest
  proof -
    from that obtain m where n: "n = Suc m" by (cases n) auto
    have sk: "skip_ws (''null'' @ rest) = ''null'' @ rest" by (simp add: skip_ws_def is_ws_def)
    show ?thesis unfolding n parse_value.simps sk
      using parse_literal_exact [of "''null''" JNull rest] by simp
  qed
  then show ?thesis by (simp add: parses_back_def is_ws_def)
qed

lemma parses_back_bool: "parses_back (JBool b)"
proof -
  have t: "parse_value n (''true'' @ rest) = Inr (JBool True, rest)" if "1 \<le> n" for n rest
  proof -
    from that obtain m where n: "n = Suc m" by (cases n) auto
    have sk: "skip_ws (''true'' @ rest) = ''true'' @ rest" by (simp add: skip_ws_def is_ws_def)
    show ?thesis unfolding n parse_value.simps sk
      using parse_literal_exact [of "''true''" "JBool True" rest] by simp
  qed
  have f: "parse_value n (''false'' @ rest) = Inr (JBool False, rest)" if "1 \<le> n" for n rest
  proof -
    from that obtain m where n: "n = Suc m" by (cases n) auto
    have sk: "skip_ws (''false'' @ rest) = ''false'' @ rest" by (simp add: skip_ws_def is_ws_def)
    show ?thesis unfolding n parse_value.simps sk
      using parse_literal_exact [of "''false''" "JBool False" rest] by simp
  qed
  show ?thesis using t f by (cases b) (simp_all add: parses_back_def is_ws_def)
qed

lemma digit_not_special:
  "is_digit c \<Longrightarrow> \<not> is_ws c \<and> c \<noteq> CHR '']'' \<and> c \<noteq> CHR ''}'' \<and> c \<noteq> CHR ''n'' \<and> c \<noteq> CHR ''t''
     \<and> c \<noteq> CHR ''f'' \<and> c \<noteq> dquote \<and> c \<noteq> CHR ''['' \<and> c \<noteq> CHR ''{''"
  by (auto simp add: is_digit_def is_ws_def dquote_def)

lemma minus_not_special:
  "\<not> is_ws CHR ''-''" "CHR ''-'' \<noteq> dquote"
  by (simp_all add: is_ws_def dquote_def)

lemma parses_back_num: "parses_back (JNum i)"
proof -
  obtain c r where cr: "show_int i = c # r" and c: "c = CHR ''-'' \<or> is_digit c"
    using show_int_first [of i] by blast
  from c have plain: "\<not> is_ws c" "c \<noteq> CHR '']''" "c \<noteq> CHR ''}''" "c \<noteq> CHR ''n''" "c \<noteq> CHR ''t''"
      "c \<noteq> CHR ''f''" "c \<noteq> dquote" "c \<noteq> CHR ''[''" "c \<noteq> CHR ''{''"
    using digit_not_special [of c] minus_not_special by auto
  have "parse_value n (show_int i @ rest) = Inr (JNum i, rest)" if "1 \<le> n" "num_end rest" for n rest
  proof -
    from that obtain m where n: "n = Suc m" by (cases n) auto
    have sk: "skip_ws ((c # r) @ rest) = c # r @ rest" using plain(1) by (simp add: skip_ws_def)
    have "parse_number (c # r @ rest) = Inr (JNum i, rest)"
      using parse_number_show_int [OF that(2), of i] by (simp add: cr)
    then show ?thesis unfolding n cr parse_value.simps sk using plain by simp
  qed
  then show ?thesis using plain by (simp add: parses_back_def cr)
qed

lemma parses_back_str: "parses_back (JStr s)"
proof -
  have q: "dquote \<noteq> CHR ''n''" "dquote \<noteq> CHR ''t''" "dquote \<noteq> CHR ''f''" "dquote \<noteq> CHR '']''" "dquote \<noteq> CHR ''}''"
    by (simp_all add: dquote_def)
  have "parse_value n (quote_json s @ rest) = Inr (JStr s, rest)" if "1 \<le> n" for n rest
  proof -
    from that obtain m where n: "n = Suc m" by (cases n) auto
    have sk: "skip_ws (quote_json s @ rest) = dquote # concat (map escape_char s) @ dquote # rest"
      by (simp add: quote_json_def skip_ws_Cons not_ws_comma)
    show ?thesis unfolding n parse_value.simps sk
      using q by (simp add: parse_string_quoted)
  qed
  then show ?thesis using q by (simp add: parses_back_def quote_json_def not_ws_comma)
qed

lemma parses_back_arr:
  assumes "\<forall>x \<in> set xs. parses_back x"
  shows "parses_back (JArr xs)"
proof (cases xs)
  case Nil
  have "parse_value n (''[]'' @ rest) = Inr (JArr [], rest)" if "1 \<le> n" for n rest
  proof -
    from that obtain m where n: "n = Suc m" by (cases n) auto
    have sk: "skip_ws (CHR ''['' # CHR '']'' # rest) = CHR ''['' # CHR '']'' # rest" "skip_ws (CHR '']'' # rest) = CHR '']'' # rest"
      by (simp_all add: skip_ws_def is_ws_def)
    show ?thesis unfolding n parse_value.simps by (simp add: sk dquote_def)
  qed
  then show ?thesis by (simp add: parses_back_def Nil is_ws_def)
next
  case (Cons x ys)
  from assms Cons have "parses_back x" by simp
  have "\<exists>t. serialize k (JArr xs) = Some t \<and> t \<noteq> [] \<and> \<not> is_ws (hd t)
              \<and> hd t \<noteq> CHR '']'' \<and> hd t \<noteq> CHR ''}''
              \<and> (\<forall>n rest. fuel_of (JArr xs) \<le> n \<and> num_end rest \<longrightarrow>
                    parse_value n (t @ rest) = Inr (JArr xs, rest))" for k
  proof -
    let ?J = "join (separator (Suc k)) (serialize_elems (Suc k) xs)"
    let ?t = "CHR ''['' # newline # indent (Suc k) @ ?J @ newline # indent k @ '']''"
    from \<open>parses_back x\<close> obtain tx where tx: "serialize (Suc k) x = Some tx" "tx \<noteq> []"
        "\<not> is_ws (hd tx)" "hd tx \<noteq> CHR '']''"
      unfolding parses_back_def by blast
    have J: "?J \<noteq> []" "hd ?J = hd tx"
      using join_first [OF tx(2), of "separator (Suc k)" "serialize_elems (Suc k) ys"]
      by (simp_all add: Cons tx)
    have ser: "serialize k (JArr xs) = Some ?t" by (simp add: Cons)
    have ws1: "\<forall>c \<in> set (newline # indent (Suc k)). is_ws c"
      using is_ws_indent is_ws_newline by simp
    have ws2: "\<forall>c \<in> set (newline # indent k). is_ws c"
      using is_ws_indent is_ws_newline by simp
    have parse: "parse_value n (?t @ rest) = Inr (JArr xs, rest)"
      if "fuel_of (JArr xs) \<le> n" for n rest
    proof -
      from that obtain m where n: "n = Suc m" and m: "fuel_elems xs \<le> m" by (cases n) auto
      let ?r = "newline # indent (Suc k) @ ?J @ newline # indent k @ CHR '']'' # rest"
      have shape: "?t @ rest = CHR ''['' # ?r" by simp
      have sk0: "skip_ws (CHR ''['' # ?r) = CHR ''['' # ?r"
        by (rule skip_ws_Cons) (simp add: not_ws_comma)
      have "skip_ws ((newline # indent (Suc k)) @ ?J @ newline # indent k @ CHR '']'' # rest)
              = skip_ws (?J @ newline # indent k @ CHR '']'' # rest)"
        using ws1 by (rule skip_ws_ws)
      also have "\<dots> = ?J @ newline # indent k @ CHR '']'' # rest"
        using J tx(3) by (intro skip_ws_start) simp_all
      finally have sk1: "skip_ws ?r = ?J @ newline # indent k @ CHR '']'' # rest" by simp
      have first: "(skip_ws ?r \<noteq> [] \<and> hd (skip_ws ?r) = CHR '']'') = False"
        unfolding sk1 using J tx(4) by simp
      have "parse_elems m ((newline # indent (Suc k)) @ ?J @ (newline # indent k) @ CHR '']'' # rest)
              = parse_elems m (?J @ (newline # indent k) @ CHR '']'' # rest)"
        using ws1 by (rule parse_elems_ws)
      also have "\<dots> = Inr (xs, rest)"
        using _ assms m _ ws2 by (rule parse_elems_back) (simp_all add: Cons)
      finally have elems: "parse_elems m ?r = Inr (xs, rest)" by simp
      show ?thesis
        unfolding shape n parse_value.simps sk0
        by (simp add: first elems dquote_def)
    qed
    show ?thesis
      using ser parse by (intro exI [of _ ?t]) (simp add: is_ws_def)
  qed
  then show ?thesis unfolding parses_back_def by blast
qed

lemma serialize_props_first:
  assumes "\<forall>p \<in> set ((key, v) # ps). parses_back (snd p)"
  shows "\<exists>m. join sep (serialize_props k ((key, v) # ps)) = dquote # m"
proof -
  from assms have "parses_back v" by simp
  then obtain t where t: "serialize k v = Some t" unfolding parses_back_def by blast
  show ?thesis
    by (cases "serialize_props k ps") (simp_all add: t quote_json_def)
qed

lemma parses_back_obj:
  assumes "\<forall>p \<in> set ps. parses_back (snd p)" and "distinct (map fst ps)"
  shows "parses_back (JObj ps)"
proof (cases ps)
  case Nil
  have "parse_value n (''{}'' @ rest) = Inr (JObj [], rest)" if "1 \<le> n" for n rest
  proof -
    from that obtain m where n: "n = Suc m" by (cases n) auto
    have sk: "skip_ws (CHR ''{'' # CHR ''}'' # rest) = CHR ''{'' # CHR ''}'' # rest" "skip_ws (CHR ''}'' # rest) = CHR ''}'' # rest"
      by (simp_all add: skip_ws_def is_ws_def)
    show ?thesis unfolding n parse_value.simps by (simp add: sk dquote_def)
  qed
  then show ?thesis by (simp add: parses_back_def Nil is_ws_def)
next
  case (Cons p qs)
  obtain key v where p: "p = (key, v)" by (cases p)
  have ne: "ps \<noteq> []" by (simp add: Cons)
  have "\<exists>t. serialize k (JObj ps) = Some t \<and> t \<noteq> [] \<and> \<not> is_ws (hd t)
              \<and> hd t \<noteq> CHR '']'' \<and> hd t \<noteq> CHR ''}''
              \<and> (\<forall>n rest. fuel_of (JObj ps) \<le> n \<and> num_end rest \<longrightarrow>
                    parse_value n (t @ rest) = Inr (JObj ps, rest))" for k
  proof -
    let ?M = "join (separator (Suc k)) (serialize_props (Suc k) ps)"
    let ?t = "CHR ''{'' # newline # indent (Suc k) @ ?M @ newline # indent k @ ''}''"
    have props: "serialize_props (Suc k) ps \<noteq> []"
      using ne assms(1) by (rule serialize_props_nonempty)
    obtain m0 where M: "?M = dquote # m0"
      using serialize_props_first [of key v qs "separator (Suc k)" "Suc k"] assms(1)
      by (auto simp add: Cons p)
    have ser: "serialize k (JObj ps) = Some ?t" using props by simp
    have ws1: "\<forall>c \<in> set (newline # indent (Suc k)). is_ws c"
      using is_ws_indent is_ws_newline by simp
    have ws2: "\<forall>c \<in> set (newline # indent k). is_ws c"
      using is_ws_indent is_ws_newline by simp
    have parse: "parse_value n (?t @ rest) = Inr (JObj ps, rest)"
      if "fuel_of (JObj ps) \<le> n" for n rest
    proof -
      from that obtain m where n: "n = Suc m" and m: "fuel_props ps \<le> m" by (cases n) auto
      let ?r = "newline # indent (Suc k) @ ?M @ newline # indent k @ CHR ''}'' # rest"
      have shape: "?t @ rest = CHR ''{'' # ?r" by simp
      have sk0: "skip_ws (CHR ''{'' # ?r) = CHR ''{'' # ?r"
        by (rule skip_ws_Cons) (simp add: not_ws_comma)
      have "skip_ws ((newline # indent (Suc k)) @ ?M @ newline # indent k @ CHR ''}'' # rest)
              = skip_ws (?M @ newline # indent k @ CHR ''}'' # rest)"
        using ws1 by (rule skip_ws_ws)
      also have "\<dots> = ?M @ newline # indent k @ CHR ''}'' # rest"
        by (intro skip_ws_start) (simp_all add: M not_ws_comma)
      finally have sk1: "skip_ws ?r = ?M @ newline # indent k @ CHR ''}'' # rest" by simp
      have first: "(skip_ws ?r \<noteq> [] \<and> hd (skip_ws ?r) = CHR ''}'') = False"
        unfolding sk1 by (simp add: M dquote_def)
      have "parse_members m [] ((newline # indent (Suc k)) @ ?M @ (newline # indent k) @ CHR ''}'' # rest)
              = parse_members m [] (?M @ (newline # indent k) @ CHR ''}'' # rest)"
        using ws1 by (rule parse_members_ws)
      also have "\<dots> = Inr (JObj ([] @ ps), rest)"
        using ne assms(1,2) _ m _ ws2 by (rule parse_members_back) simp_all
      finally have members: "parse_members m [] ?r = Inr (JObj ps, rest)" by simp
      show ?thesis
        unfolding shape n parse_value.simps sk0
        by (simp add: first members dquote_def)
    qed
    show ?thesis
      using ser parse by (intro exI [of _ ?t]) (simp add: is_ws_def)
  qed
  then show ?thesis unfolding parses_back_def by blast
qed

lemma json_ok_parses_back: "json_ok v \<Longrightarrow> parses_back v"
proof (induction v)
  case JUndefined
  then show ?case by simp
next
  case JNull
  show ?case by (rule parses_back_null)
next
  case (JBool b)
  show ?case by (rule parses_back_bool)
next
  case (JNum i)
  show ?case by (rule parses_back_num)
next
  case (JStr s)
  show ?case by (rule parses_back_str)
next
  case (JArr xs)
  then show ?case by (intro parses_back_arr) simp
next
  case (JObj ps)
  have "\<forall>p \<in> set ps. parses_back (snd p)"
  proof
    fix p assume "p \<in> set ps"
    moreover obtain a b where "p = (a, b)" by (cases p)
    ultimately show "parses_back (snd p)" using JObj by auto
  qed
  with JObj.prems show ?case by (intro parses_back_obj) simp_all
qed

lemma fuel_fitsD: "fuel_fits v \<Longrightarrow> \<exists>t. serialize k v = Some t \<and> t \<noteq> [] \<and> fuel_of v < 2 * length t"
  by (simp add: fuel_fits_def)

lemma fuel_elems_fits:
  assumes "\<forall>x \<in> set xs. fuel_fits x"
  shows "fuel_elems xs \<le> 2 * length (join sep (serialize_elems k xs))"
  using assms
proof (induction xs)
  case Nil
  show ?case by simp
next
  case (Cons x xs)
  from Cons.prems have "fuel_fits x" by simp
  from fuel_fitsD [OF this, of k]
  obtain t where t: "serialize k x = Some t" "fuel_of x < 2 * length t" by blast
  from Cons have ih: "fuel_elems xs \<le> 2 * length (join sep (serialize_elems k xs))" by simp
  show ?case
  proof (cases xs)
    case Nil
    with t show ?thesis by simp
  next
    case (Cons y ys)
    then have "join sep (serialize_elems k (x # xs)) = t @ sep @ join sep (serialize_elems k xs)"
      by (simp add: t)
    with t ih show ?thesis by simp
  qed
qed

lemma fuel_props_fits:
  assumes "\<forall>p \<in> set ps. fuel_fits (snd p)"
  shows "fuel_props ps \<le> 2 * length (join sep (serialize_props k ps))"
  using assms
proof (induction ps)
  case Nil
  show ?case by simp
next
  case (Cons p ps)
  from Cons.prems have "fuel_fits (snd p)" by simp
  from fuel_fitsD [OF this, of k]
  obtain t where t: "serialize k (snd p) = Some t" "fuel_of (snd p) < 2 * length t" by blast
  from Cons have ih: "fuel_props ps \<le> 2 * length (join sep (serialize_props k ps))" by simp
  show ?case
  proof (cases "serialize_props k ps")
    case Nil
    with t ih show ?thesis by simp
  next
    case (Cons y ys)
    then have "join sep (serialize_props k (p # ps))
        = (quote_json (fst p) @ CHR '':'' # CHR '' '' # t) @ sep @ join sep (serialize_props k ps)"
      by (simp add: t)
    with t ih show ?thesis by simp
  qed
qed

lemma json_ok_fuel_fits: "json_ok v \<Longrightarrow> fuel_fits v"
proof (induction v)
  case JUndefined
  then show ?case by simp
next
  case JNull
  show ?case by (simp add: fuel_fits_def)
next
  case (JBool b)
  show ?case by (simp add: fuel_fits_def)
next
  case (JNum i)
  obtain c r where "show_int i = c # r" using show_int_first [of i] by blast
  then show ?case by (simp add: fuel_fits_def)
next
  case (JStr s)
  show ?case by (simp add: fuel_fits_def quote_json_def)
next
  case (JArr xs)
  then have all: "\<forall>x \<in> set xs. fuel_fits x" by simp
  show ?case
    unfolding fuel_fits_def
  proof
    fix k
    have "fuel_elems xs \<le> 2 * length (join (separator (Suc k)) (serialize_elems (Suc k) xs))"
      using all by (rule fuel_elems_fits)
    then show "\<exists>t. serialize k (JArr xs) = Some t \<and> t \<noteq> [] \<and> fuel_of (JArr xs) < 2 * length t"
      by (cases "xs = []") simp_all
  qed
next
  case (JObj ps)
  have all: "\<forall>p \<in> set ps. fuel_fits (snd p)"
  proof
    fix p assume "p \<in> set ps"
    moreover obtain a b where "p = (a, b)" by (cases p)
    ultimately show "fuel_fits (snd p)" using JObj by auto
  qed
  show ?case
    unfolding fuel_fits_def
  proof
    fix k
    have b: "fuel_props ps \<le> 2 * length (join (separator (Suc k)) (serialize_props (Suc k) ps))"
      using all by (rule fuel_props_fits)
    show "\<exists>t. serialize k (JObj ps) = Some t \<and> t \<noteq> [] \<and> fuel_of (JObj ps) < 2 * length t"
    proof (cases "serialize_props (Suc k) ps = []")
      case True
      with b show ?thesis by simp
    next
      case False
      with b show ?thesis by simp
    qed
  qed
qed

lemma stringify_then_parse:
  assumes "json_ok v"
  shows "\<exists>t. JSON_stringify v = Some t \<and> t \<noteq> [] \<and> JSON_parse t = Inr v"
proof -
  from assms have "parses_back v" by (rule json_ok_parses_back)
  then obtain t where t: "serialize 0 v = Some t" "t \<noteq> []"
    and pb: "\<And>n rest. fuel_of v \<le> n \<Longrightarrow> num_end rest \<Longrightarrow> parse_value n (t @ rest) = Inr (v, rest)"
    unfolding parses_back_def by blast
  from assms have "fuel_fits v" by (rule json_ok_fuel_fits)
  from fuel_fitsD [OF this, of 0] t(1) have "fuel_of v < 2 * length t" by auto
  then have "parse_value (2 * length t + 2) (t @ []) = Inr (v, [])"
    by (intro pb num_end_Nil) simp
  then have "JSON_parse t = Inr v" by (simp add: JSON_parse_def skip_ws_def)
  with t show ?thesis by (simp add: JSON_stringify_def)
qed

lemma obj_set_keys: "fst ` set (obj_set k v acc) = insert k (fst ` set acc)"
  by (induction acc) auto

lemma obj_set_distinct: "distinct (map fst acc) \<Longrightarrow> distinct (map fst (obj_set k v acc))"
proof (induction acc)
  case Nil
  show ?case by simp
next
  case (Cons p acc)
  then show ?case using obj_set_keys [of k v acc] by (auto simp add: image_iff)
qed

lemma obj_set_values:
  "\<forall>p \<in> set acc. P (snd p) \<Longrightarrow> P v \<Longrightarrow> \<forall>p \<in> set (obj_set k v acc). P (snd p)"
  by (induction acc) auto

lemma json_ok_obj_set: "json_ok (JObj acc) \<Longrightarrow> json_ok v \<Longrightarrow> json_ok (JObj (obj_set k v acc))"
  using obj_set_distinct [of acc k v] obj_set_values [of acc json_ok v k] by simp

lemma parse_number_ok: "parse_number s = Inr (v, r) \<Longrightarrow> json_ok v"
  by (auto simp add: parse_number_def Let_def split: list.splits if_splits)

lemma parse_literal_ok: "parse_literal w v0 s = Inr (v, r) \<Longrightarrow> v = v0"
  by (auto simp add: parse_literal_def split: if_splits)

lemma parse_ok:
  "parse_value n s = Inr (v, r) \<Longrightarrow> json_ok v"
  "parse_elems n s = Inr (vs, r) \<Longrightarrow> \<forall>x \<in> set vs. json_ok x"
  "parse_members n acc s = Inr (v, r) \<Longrightarrow> json_ok (JObj acc) \<Longrightarrow> json_ok v"
proof (induction n s and n s and n acc s arbitrary: v r and vs r and v r
    rule: parse_value_parse_elems_parse_members.induct)
  case (1 s)
  then show ?case by simp
next
  case (2 n s)
  from "2.prems" obtain c r0 where sk: "skip_ws s = c # r0"
    by (cases "skip_ws s") auto
  consider (null) "c = CHR ''n''" | (true) "c \<noteq> CHR ''n''" "c = CHR ''t''"
    | (false) "c \<noteq> CHR ''n''" "c \<noteq> CHR ''t''" "c = CHR ''f''"
    | (str) "c \<noteq> CHR ''n''" "c \<noteq> CHR ''t''" "c \<noteq> CHR ''f''" "c = dquote"
    | (arr) "c \<noteq> CHR ''n''" "c \<noteq> CHR ''t''" "c \<noteq> CHR ''f''" "c \<noteq> dquote" "c = CHR ''[''"
    | (obj) "c \<noteq> CHR ''n''" "c \<noteq> CHR ''t''" "c \<noteq> CHR ''f''" "c \<noteq> dquote" "c \<noteq> CHR ''[''" "c = CHR ''{''"
    | (num) "c \<noteq> CHR ''n''" "c \<noteq> CHR ''t''" "c \<noteq> CHR ''f''" "c \<noteq> dquote" "c \<noteq> CHR ''[''" "c \<noteq> CHR ''{''"
    by blast
  then show ?case
  proof cases
    case null
    with "2.prems" sk have "parse_literal ''null'' JNull (c # r0) = Inr (v, r)" by simp
    then show ?thesis using parse_literal_ok by fastforce
  next
    case true
    with "2.prems" sk have "parse_literal ''true'' (JBool True) (c # r0) = Inr (v, r)" by simp
    then show ?thesis using parse_literal_ok by fastforce
  next
    case false
    with "2.prems" sk have "parse_literal ''false'' (JBool False) (c # r0) = Inr (v, r)" by simp
    then show ?thesis using parse_literal_ok by fastforce
  next
    case str
    with "2.prems" sk show ?thesis by (auto split: sum.splits)
  next
    case arr
    show ?thesis
    proof (cases "skip_ws r0 \<noteq> [] \<and> hd (skip_ws r0) = CHR '']''")
      case True
      with "2.prems" sk arr show ?thesis by auto
    next
      case False
      with "2.prems" sk arr obtain vs where vs: "parse_elems n r0 = Inr (vs, r)" "v = JArr vs"
        by (auto split: sum.splits)
      from "2.IH"(1) [OF sk arr False vs(1)] vs(2) show ?thesis by simp
    qed
  next
    case obj
    show ?thesis
    proof (cases "skip_ws r0 \<noteq> [] \<and> hd (skip_ws r0) = CHR ''}''")
      case True
      with "2.prems" sk obj show ?thesis by auto
    next
      case False
      with "2.prems" sk obj have "parse_members n [] r0 = Inr (v, r)" by (auto split: if_splits)
      from "2.IH"(2) [OF sk obj False this] show ?thesis by simp
    qed
  next
    case num
    with "2.prems" sk have "parse_number (c # r0) = Inr (v, r)" by simp
    then show ?thesis by (rule parse_number_ok)
  qed
next
  case (3 s)
  then show ?case by simp
next
  case (4 n s)
  from "4.prems" obtain x r1 where x: "parse_value n s = Inr (x, r1)"
    by (cases "parse_value n s") auto
  from "4.IH"(1) [OF x] have okx: "json_ok x" .
  from "4.prems" x obtain c r2 where sk: "skip_ws r1 = c # r2"
    by (cases "skip_ws r1") auto
  show ?case
  proof (cases "c = CHR '',''")
    case True
    with "4.prems" x sk obtain ys where ys: "parse_elems n r2 = Inr (ys, r)" "vs = x # ys"
      by (auto split: sum.splits)
    from "4.IH"(2) [OF x refl sk True ys(1)] okx ys(2) show ?thesis by simp
  next
    case False
    with "4.prems" x sk have "vs = [x]" by (auto split: if_splits)
    with okx show ?thesis by simp
  qed
next
  case (5 acc s)
  then show ?case by simp
next
  case (6 n acc s)
  from "6.prems"(1) obtain q r0 where sk: "skip_ws s = q # r0"
    by (cases "skip_ws s") auto
  from "6.prems"(1) sk have q: "\<not> q \<noteq> dquote" by (auto split: if_splits)
  from "6.prems"(1) sk q obtain key r1 where key: "parse_string r0 = Inr (key, r1)"
    by (cases "parse_string r0") auto
  from "6.prems"(1) sk q key obtain c r2 where sk1: "skip_ws r1 = c # r2"
    by (cases "skip_ws r1") auto
  from "6.prems"(1) sk q key sk1 have c: "\<not> c \<noteq> CHR '':''" by (auto split: if_splits)
  from "6.prems"(1) sk q key sk1 c obtain x r3 where x: "parse_value n r2 = Inr (x, r3)"
    by (cases "parse_value n r2") auto
  from "6.IH"(1) [OF sk q key refl sk1 c x] have okx: "json_ok x" .
  from okx "6.prems"(2) have acc': "json_ok (JObj (obj_set key x acc))" by (intro json_ok_obj_set)
  from "6.prems"(1) sk q key sk1 c x obtain d r4 where sk3: "skip_ws r3 = d # r4"
    by (cases "skip_ws r3") auto
  show ?case
  proof (cases "d = CHR '',''")
    case True
    with "6.prems"(1) sk q key sk1 c x sk3 have "parse_members n (obj_set key x acc) r4 = Inr (v, r)"
      by simp
    from "6.IH"(2) [OF sk q key refl sk1 c x refl sk3 True this acc']
    show ?thesis .
  next
    case False
    with "6.prems"(1) sk q key sk1 c x sk3 have "v = JObj (obj_set key x acc)"
      by (auto split: if_splits)
    with acc' show ?thesis by simp
  qed
qed

lemma JSON_parse_ok: "JSON_parse t = Inr v \<Longrightarrow> json_ok v"
  using parse_ok(1) [of "2 * length t + 2" t v]
  by (auto simp add: JSON_parse_def split: sum.splits if_splits)

section \<open>The parser always answers\<close>

text \<open>
  Every successful parsing step consumes at least one character, so the fuel given by
  \<open>JSON_parse\<close>, two units for each character and two more, never runs out: the model of
  \<open>JSON.parse\<close> answers every text with a value or with a failure of its own
  (\<open>JSON_parse_fuel\<close>).
\<close>

lemma cons_char_Inr: "cons_char c x = Inr (str, r) \<Longrightarrow> \<exists>str'. x = Inr (str', r) \<and> str = c # str'"
  by (auto simp add: cons_char_def split: sum.splits)

lemma cons_char_Inl: "cons_char c x = Inl e \<Longrightarrow> x = Inl e"
  by (auto simp add: cons_char_def split: sum.splits)

lemma parse_string_consumes: "parse_string s = Inr (str, r) \<Longrightarrow> length r < length s"
proof (induction s arbitrary: str rule: parse_string.induct)
  case 1
  then show ?case by simp
next
  case (2 c r0)
  note unf = "2.prems" [unfolded parse_string.simps(2) [of c r0]]
  show ?case
  proof (cases "c = dquote")
    case True
    with "2.prems" show ?thesis by simp
  next
    case nq: False
    show ?thesis
    proof (cases "c = bslash")
      case True
      with nq unf obtain e r1 where r0: "r0 = e # r1" by (cases r0) auto
      show ?thesis
      proof (cases "e = CHR ''u''")
        case u: True
        with nq True r0 unf obtain h1 h2 h3 h4 r2 n where
          r1: "r1 = h1 # h2 # h3 # h4 # r2" and h: "hex4 h1 h2 h3 h4 = Some n" and n: "n < 256"
          and rec: "cons_char (char_of n) (parse_string r2) = Inr (str, r)"
          by (auto split: list.splits option.splits if_splits simp del: parse_string.simps)
        from cons_char_Inr [OF rec] obtain str' where "parse_string r2 = Inr (str', r)" by blast
        from "2.IH"(1) [OF nq True r0 u r1 refl refl refl h n this] show ?thesis
          by (simp add: r0 r1)
      next
        case nu: False
        with nq True r0 unf obtain ch where ch: "unescape e = Some ch"
          and rec: "cons_char ch (parse_string r1) = Inr (str, r)"
          by (auto split: option.splits simp del: parse_string.simps)
        from cons_char_Inr [OF rec] obtain str' where "parse_string r1 = Inr (str', r)" by blast
        from "2.IH"(2) [OF nq True r0 nu ch this] show ?thesis by (simp add: r0)
      qed
    next
      case nb: False
      with nq unf have ctl: "\<not> (of_char c :: nat) < 32"
        and rec: "cons_char c (parse_string r0) = Inr (str, r)"
        by (auto split: if_splits simp del: parse_string.simps)
      from cons_char_Inr [OF rec] obtain str' where "parse_string r0 = Inr (str', r)" by blast
      from "2.IH"(3) [OF nq nb ctl this] show ?thesis by simp
    qed
  qed
qed


lemma parse_string_fuel: "parse_string s \<noteq> Inl OutOfFuel"
proof (induction s rule: parse_string.induct)
  case 1
  show ?case by simp
next
  case (2 c r0)
  show ?case
  proof
    assume bad: "parse_string (c # r0) = Inl OutOfFuel"
    note unf = bad [unfolded parse_string.simps(2) [of c r0]]
    from unf have nq: "c \<noteq> dquote" by (auto split: if_splits)
    show False
    proof (cases "c = bslash")
      case True
      with nq unf obtain e r1 where r0: "r0 = e # r1" by (cases r0) auto
      show ?thesis
      proof (cases "e = CHR ''u''")
        case u: True
        with nq True r0 unf obtain h1 h2 h3 h4 r2 n where
          r1: "r1 = h1 # h2 # h3 # h4 # r2" and h: "hex4 h1 h2 h3 h4 = Some n" and n: "n < 256"
          and rec: "cons_char (char_of n) (parse_string r2) = Inl OutOfFuel"
          by (auto split: list.splits option.splits if_splits simp del: parse_string.simps)
        from cons_char_Inl [OF rec] "2.IH"(1) [OF nq True r0 u r1 refl refl refl h n]
        show ?thesis by simp
      next
        case nu: False
        with nq True r0 unf obtain ch where ch: "unescape e = Some ch"
          and rec: "cons_char ch (parse_string r1) = Inl OutOfFuel"
          by (auto split: option.splits simp del: parse_string.simps)
        from cons_char_Inl [OF rec] "2.IH"(2) [OF nq True r0 nu ch] show ?thesis by simp
      qed
    next
      case nb: False
      with nq unf have ctl: "\<not> (of_char c :: nat) < 32"
        and rec: "cons_char c (parse_string r0) = Inl OutOfFuel"
        by (auto split: if_splits simp del: parse_string.simps)
      from cons_char_Inl [OF rec] "2.IH"(3) [OF nq nb ctl] show ?thesis by simp
    qed
  qed
qed

lemma parse_literal_consumes:
  "word \<noteq> [] \<Longrightarrow> parse_literal word v0 s = Inr (v, r) \<Longrightarrow> length r < length s"
proof -
  assume w: "word \<noteq> []" and p: "parse_literal word v0 s = Inr (v, r)"
  from p have t: "take (length word) s = word" and r: "r = drop (length word) s"
    by (auto simp add: parse_literal_def split: if_splits)
  from t w have "s \<noteq> []" by auto
  with w r show ?thesis by simp
qed

lemma parse_literal_fuel: "parse_literal word v0 s \<noteq> Inl OutOfFuel"
  by (simp add: parse_literal_def)

lemma parse_number_consumes: "parse_number s = Inr (v, r) \<Longrightarrow> length r < length s"
proof -
  assume p: "parse_number s = Inr (v, r)"
  define s1 where "s1 = (if s \<noteq> [] \<and> hd s = CHR ''-'' then tl s else s)"
  have le: "length s1 \<le> length s" by (simp add: s1_def)
  from p obtain c r0 where s1: "s1 = c # r0" and c: "is_digit c"
    by (cases s1) (auto simp add: parse_number_def Let_def s1_def split: if_splits)
  define ds where "ds = (if c = CHR ''0'' then [c] else takeWhile is_digit s1)"
  have "ds \<noteq> []" using c by (simp add: ds_def s1)
  moreover from p s1 c have "r = drop (length ds) s1"
    by (auto simp add: parse_number_def Let_def s1_def ds_def split: if_splits)
  ultimately have "length r < length s1" by (simp add: s1)
  with le show ?thesis by simp
qed

lemma parse_number_fuel: "parse_number s \<noteq> Inl OutOfFuel"
  by (auto simp add: parse_number_def Let_def split: list.splits)

lemma length_skip_ws: "length (skip_ws s) \<le> length s"
  by (simp add: skip_ws_def length_dropWhile_le)

lemma skip_ws_Cons_length: "skip_ws s = c # r \<Longrightarrow> length r < length s"
  using length_skip_ws [of s] by simp

lemma parse_consumes:
  "parse_value n s = Inr (v, r) \<Longrightarrow> length r < length s"
  "parse_elems n s = Inr (vs, r) \<Longrightarrow> length r < length s"
  "parse_members n acc s = Inr (v, r) \<Longrightarrow> length r < length s"
proof (induction n s and n s and n acc s arbitrary: v r and vs r and v r
    rule: parse_value_parse_elems_parse_members.induct)
  case (1 s)
  then show ?case by simp
next
  case (2 n s)
  from "2.prems" obtain c r0 where sk: "skip_ws s = c # r0"
    by (cases "skip_ws s") auto
  have len: "length (c # r0) \<le> length s" using length_skip_ws [of s] by (simp add: sk)
  consider (null) "c = CHR ''n''" | (true) "c \<noteq> CHR ''n''" "c = CHR ''t''"
    | (false) "c \<noteq> CHR ''n''" "c \<noteq> CHR ''t''" "c = CHR ''f''"
    | (str) "c \<noteq> CHR ''n''" "c \<noteq> CHR ''t''" "c \<noteq> CHR ''f''" "c = dquote"
    | (arr) "c \<noteq> CHR ''n''" "c \<noteq> CHR ''t''" "c \<noteq> CHR ''f''" "c \<noteq> dquote" "c = CHR ''[''"
    | (obj) "c \<noteq> CHR ''n''" "c \<noteq> CHR ''t''" "c \<noteq> CHR ''f''" "c \<noteq> dquote" "c \<noteq> CHR ''[''" "c = CHR ''{''"
    | (num) "c \<noteq> CHR ''n''" "c \<noteq> CHR ''t''" "c \<noteq> CHR ''f''" "c \<noteq> dquote" "c \<noteq> CHR ''[''" "c \<noteq> CHR ''{''"
    by blast
  then show ?case
  proof cases
    case null
    with "2.prems" sk have "parse_literal ''null'' JNull (c # r0) = Inr (v, r)" by simp
    from parse_literal_consumes [OF _ this] len show ?thesis by simp
  next
    case true
    with "2.prems" sk have "parse_literal ''true'' (JBool True) (c # r0) = Inr (v, r)" by simp
    from parse_literal_consumes [OF _ this] len show ?thesis by simp
  next
    case false
    with "2.prems" sk have "parse_literal ''false'' (JBool False) (c # r0) = Inr (v, r)" by simp
    from parse_literal_consumes [OF _ this] len show ?thesis by simp
  next
    case str
    with "2.prems" sk obtain x where "parse_string r0 = Inr (x, r)"
      by (auto split: sum.splits)
    from parse_string_consumes [OF this] len show ?thesis by simp
  next
    case arr
    show ?thesis
    proof (cases "skip_ws r0 \<noteq> [] \<and> hd (skip_ws r0) = CHR '']''")
      case True
      with "2.prems" sk arr have "r = tl (skip_ws r0)" by auto
      with True have "length r < length (skip_ws r0)" by simp
      with length_skip_ws [of r0] len show ?thesis by simp
    next
      case False
      with "2.prems" sk arr obtain vs where vs: "parse_elems n r0 = Inr (vs, r)"
        by (auto split: sum.splits)
      from "2.IH"(1) [OF sk arr False vs] len show ?thesis by simp
    qed
  next
    case obj
    show ?thesis
    proof (cases "skip_ws r0 \<noteq> [] \<and> hd (skip_ws r0) = CHR ''}''")
      case True
      with "2.prems" sk obj have "r = tl (skip_ws r0)" by auto
      with True have "length r < length (skip_ws r0)" by simp
      with length_skip_ws [of r0] len show ?thesis by simp
    next
      case False
      with "2.prems" sk obj have "parse_members n [] r0 = Inr (v, r)" by (auto split: if_splits)
      from "2.IH"(2) [OF sk obj False this] len show ?thesis by simp
    qed
  next
    case num
    with "2.prems" sk have "parse_number (c # r0) = Inr (v, r)" by simp
    from parse_number_consumes [OF this] len show ?thesis by simp
  qed
next
  case (3 s)
  then show ?case by simp
next
  case (4 n s)
  from "4.prems" obtain x r1 where x: "parse_value n s = Inr (x, r1)"
    by (cases "parse_value n s") auto
  from "4.IH"(1) [OF x] have l1: "length r1 < length s" .
  from "4.prems" x obtain c r2 where sk: "skip_ws r1 = c # r2"
    by (cases "skip_ws r1") auto
  from skip_ws_Cons_length [OF sk] have l2: "length r2 < length r1" .
  show ?case
  proof (cases "c = CHR '',''")
    case True
    with "4.prems" x sk obtain ys where ys: "parse_elems n r2 = Inr (ys, r)"
      by (auto split: sum.splits)
    from "4.IH"(2) [OF x refl sk True ys] l1 l2 show ?thesis by simp
  next
    case False
    with "4.prems" x sk have "r = r2" by (auto split: if_splits)
    with l1 l2 show ?thesis by simp
  qed
next
  case (5 acc s)
  then show ?case by simp
next
  case (6 n acc s)
  from "6.prems"(1) obtain q r0 where sk: "skip_ws s = q # r0"
    by (cases "skip_ws s") auto
  from skip_ws_Cons_length [OF sk] have l0: "length r0 < length s" .
  from "6.prems"(1) sk have q: "\<not> q \<noteq> dquote" by (auto split: if_splits)
  from "6.prems"(1) sk q obtain key r1 where key: "parse_string r0 = Inr (key, r1)"
    by (cases "parse_string r0") auto
  from parse_string_consumes [OF key] have l1: "length r1 < length r0" .
  from "6.prems"(1) sk q key obtain c r2 where sk1: "skip_ws r1 = c # r2"
    by (cases "skip_ws r1") auto
  from skip_ws_Cons_length [OF sk1] have l2: "length r2 < length r1" .
  from "6.prems"(1) sk q key sk1 have c: "\<not> c \<noteq> CHR '':''" by (auto split: if_splits)
  from "6.prems"(1) sk q key sk1 c obtain x r3 where x: "parse_value n r2 = Inr (x, r3)"
    by (cases "parse_value n r2") auto
  from "6.IH"(1) [OF sk q key refl sk1 c x] have l3: "length r3 < length r2" .
  from "6.prems"(1) sk q key sk1 c x obtain d r4 where sk3: "skip_ws r3 = d # r4"
    by (cases "skip_ws r3") auto
  from skip_ws_Cons_length [OF sk3] have l4: "length r4 < length r3" .
  show ?case
  proof (cases "d = CHR '',''")
    case True
    with "6.prems"(1) sk q key sk1 c x sk3 have "parse_members n (obj_set key x acc) r4 = Inr (v, r)"
      by simp
    from "6.IH"(2) [OF sk q key refl sk1 c x refl sk3 True this] l0 l1 l2 l3 l4
    show ?thesis by simp
  next
    case False
    with "6.prems"(1) sk q key sk1 c x sk3 have "r = r4"
      by (auto split: if_splits)
    with l0 l1 l2 l3 l4 show ?thesis by simp
  qed
qed

lemma parse_fuel:
  "2 * length s + 2 \<le> n \<Longrightarrow> parse_value n s \<noteq> Inl OutOfFuel"
  "2 * length s + 3 \<le> n \<Longrightarrow> parse_elems n s \<noteq> Inl OutOfFuel"
  "2 * length s + 3 \<le> n \<Longrightarrow> parse_members n acc s \<noteq> Inl OutOfFuel"
proof (induction n s and n s and n acc s
    rule: parse_value_parse_elems_parse_members.induct)
  case (1 s)
  then show ?case by simp
next
  case (2 n s)
  show ?case
  proof (cases "skip_ws s")
    case Nil
    then show ?thesis by simp
  next
    case (Cons c r0)
    note sk = Cons
    have len: "length r0 < length s" using sk by (rule skip_ws_Cons_length)
    consider (null) "c = CHR ''n''" | (true) "c \<noteq> CHR ''n''" "c = CHR ''t''"
      | (false) "c \<noteq> CHR ''n''" "c \<noteq> CHR ''t''" "c = CHR ''f''"
      | (str) "c \<noteq> CHR ''n''" "c \<noteq> CHR ''t''" "c \<noteq> CHR ''f''" "c = dquote"
      | (arr) "c \<noteq> CHR ''n''" "c \<noteq> CHR ''t''" "c \<noteq> CHR ''f''" "c \<noteq> dquote" "c = CHR ''[''"
      | (obj) "c \<noteq> CHR ''n''" "c \<noteq> CHR ''t''" "c \<noteq> CHR ''f''" "c \<noteq> dquote" "c \<noteq> CHR ''[''" "c = CHR ''{''"
      | (num) "c \<noteq> CHR ''n''" "c \<noteq> CHR ''t''" "c \<noteq> CHR ''f''" "c \<noteq> dquote" "c \<noteq> CHR ''[''" "c \<noteq> CHR ''{''"
      by blast
    then show ?thesis
    proof cases
      case null
      then show ?thesis using parse_literal_fuel by (simp add: sk)
    next
      case true
      then show ?thesis using parse_literal_fuel by (simp add: sk)
    next
      case false
      then show ?thesis using parse_literal_fuel by (simp add: sk)
    next
      case str
      then show ?thesis using parse_string_fuel [of r0] by (auto simp add: sk split: sum.splits)
    next
      case arr
      show ?thesis
      proof (cases "skip_ws r0 \<noteq> [] \<and> hd (skip_ws r0) = CHR '']''")
        case True
        with arr show ?thesis by (simp add: sk)
      next
        case False
        from "2.prems" len have "2 * length r0 + 3 \<le> n" by simp
        from "2.IH"(1) [OF sk arr False this] arr False show ?thesis
          by (auto simp add: sk split: sum.splits)
      qed
    next
      case obj
      show ?thesis
      proof (cases "skip_ws r0 \<noteq> [] \<and> hd (skip_ws r0) = CHR ''}''")
        case True
        with obj show ?thesis by (simp add: sk)
      next
        case False
        from "2.prems" len have "2 * length r0 + 3 \<le> n" by simp
        from "2.IH"(2) [OF sk obj False this] obj False show ?thesis
          by (auto simp add: sk)
      qed
    next
      case num
      then show ?thesis using parse_number_fuel by (simp add: sk)
    qed
  qed
next
  case (3 s)
  then show ?case by simp
next
  case (4 n s)
  from "4.prems" have f1: "2 * length s + 2 \<le> n" by simp
  from "4.IH"(1) [OF f1] have nf: "parse_value n s \<noteq> Inl OutOfFuel" .
  show ?case
  proof (cases "parse_value n s")
    case (Inl e)
    with nf show ?thesis by simp
  next
    case (Inr b)
    obtain x r1 where b: "b = (x, r1)" by (cases b)
    from Inr b have x: "parse_value n s = Inr (x, r1)" by simp
    from parse_consumes(1) [OF x] have l1: "length r1 < length s" .
    show ?thesis
    proof (cases "skip_ws r1")
      case Nil
      with x show ?thesis by simp
    next
      case (Cons c r2)
      from skip_ws_Cons_length [OF Cons] have l2: "length r2 < length r1" .
      show ?thesis
      proof (cases "c = CHR '',''")
        case True
        from f1 l1 l2 have "2 * length r2 + 3 \<le> n" by simp
        from "4.IH"(2) [OF x refl Cons True this] x Cons True show ?thesis
          by (auto split: sum.splits)
      next
        case False
        with x Cons show ?thesis by simp
      qed
    qed
  qed
next
  case (5 acc s)
  then show ?case by simp
next
  case (6 n acc s)
  from "6.prems" have f: "2 * length s + 2 \<le> n" by simp
  show ?case
  proof (cases "skip_ws s")
    case Nil
    then show ?thesis by simp
  next
    case (Cons q r0)
    note sk = Cons
    from skip_ws_Cons_length [OF sk] have l0: "length r0 < length s" .
    show ?thesis
    proof (cases "q \<noteq> dquote")
      case True
      with sk show ?thesis by simp
    next
      case q: False
      show ?thesis
      proof (cases "parse_string r0")
        case (Inl e)
        with parse_string_fuel [of r0] sk q show ?thesis by simp
      next
        case (Inr b)
        obtain key r1 where b: "b = (key, r1)" by (cases b)
        from Inr b have key: "parse_string r0 = Inr (key, r1)" by simp
        from parse_string_consumes [OF key] have l1: "length r1 < length r0" .
        show ?thesis
        proof (cases "skip_ws r1")
          case Nil
          with sk q key show ?thesis by simp
        next
          case (Cons c r2)
          note sk1 = Cons
          from skip_ws_Cons_length [OF sk1] have l2: "length r2 < length r1" .
          show ?thesis
          proof (cases "c \<noteq> CHR '':''")
            case True
            with sk q key sk1 show ?thesis by simp
          next
            case c: False
            from f l0 l1 l2 have f2: "2 * length r2 + 2 \<le> n" by simp
            from "6.IH"(1) [OF sk q key refl sk1 c f2]
            have nf: "parse_value n r2 \<noteq> Inl OutOfFuel" .
            show ?thesis
            proof (cases "parse_value n r2")
              case (Inl e)
              with nf sk q key sk1 c show ?thesis by simp
            next
              case (Inr b2)
              obtain x r3 where b2: "b2 = (x, r3)" by (cases b2)
              from Inr b2 have x: "parse_value n r2 = Inr (x, r3)" by simp
              from parse_consumes(1) [OF x] have l3: "length r3 < length r2" .
              show ?thesis
              proof (cases "skip_ws r3")
                case Nil
                with sk q key sk1 c x show ?thesis by simp
              next
                case (Cons d r4)
                note sk3 = Cons
                from skip_ws_Cons_length [OF sk3] have l4: "length r4 < length r3" .
                show ?thesis
                proof (cases "d = CHR '',''")
                  case True
                  from f l0 l1 l2 l3 l4 have "2 * length r4 + 3 \<le> n" by simp
                  from "6.IH"(2) [OF sk q key refl sk1 c x refl sk3 True this]
                  show ?thesis using sk q key sk1 c x sk3 True by simp
                next
                  case False
                  with sk q key sk1 c x sk3 show ?thesis by simp
                qed
              qed
            qed
          qed
        qed
      qed
    qed
  qed
qed

lemma JSON_parse_fuel: "JSON_parse t \<noteq> Inl OutOfFuel"
  using parse_fuel(1) [of t "2 * length t + 2"]
  by (auto simp add: JSON_parse_def split: sum.splits)

section \<open>The record store\<close>

lemma strict_eq_JStr: "strict_eq v (JStr s) = (v = JStr s)"
  by (cases v) auto

lemma stringify_empty_array: "JSON_stringify (JArr []) = Some ''[]''"
  by (simp add: JSON_stringify_def)

lemma parse_empty_array: "JSON_parse ''[]'' = Inr (JArr [])"
  by code_simp

lemma parse_empty_text: "JSON_parse [] = Inl BadSyntax"
  by code_simp

lemma readData_absent:
  "files d p = None \<Longrightarrow>
   readData p d = (Inr (JArr []), d\<lparr>files := (files d)(p \<mapsto> ''[]''), writes := writes d @ [(p, ''[]'')]\<rparr>)"
  by (simp add: readData_def readData_try_def fs_access_def writeData_def fs_writeFile_def
      stringify_empty_array)

lemma readData_empty_text:
  "files d p = Some [] \<Longrightarrow> readData p d = (Inr (JArr []), d)"
  by (simp add: readData_def readData_try_def fs_access_def fs_readFile_def)

lemma readData_parsed:
  "files d p = Some t \<Longrightarrow> JSON_parse t = Inr v \<Longrightarrow> readData p d = (Inr v, d)"
  by (auto simp add: readData_def readData_try_def fs_access_def fs_readFile_def parse_empty_text)

text \<open>A load that returns a value found no file (and created it), an empty file, or a
  text that parses to the value.\<close>

lemma readData_cases:
  assumes "readData p d = (Inr v, d0)"
  shows "(files d p = None \<and> v = JArr []
            \<and> d0 = d\<lparr>files := (files d)(p \<mapsto> ''[]''), writes := writes d @ [(p, ''[]'')]\<rparr>)
       \<or> (files d p = Some [] \<and> v = JArr [] \<and> d0 = d)
       \<or> (\<exists>t. files d p = Some t \<and> t \<noteq> [] \<and> JSON_parse t = Inr v \<and> d0 = d)"
proof (cases "files d p")
  case None
  with assms readData_absent [OF None] show ?thesis by simp
next
  case (Some t)
  show ?thesis
  proof (cases "t = []")
    case True
    with Some assms readData_empty_text [of d p] show ?thesis by simp
  next
    case False
    with Some assms show ?thesis
      by (auto simp add: readData_def readData_try_def fs_access_def fs_readFile_def
          split: sum.splits if_splits)
  qed
qed

text \<open>
  C6. Loading a collection whose file is absent writes the empty array to the file and
  returns the empty sequence; the next load finds the file, its \<open>try\<close> block succeeds (the
  \<open>ENOENT\<close> branch is not taken), it writes nothing and returns the empty sequence again.
\<close>

theorem load_creates_missing_storage:
  assumes "files d p = None"
    and "d1 = d\<lparr>files := (files d)(p \<mapsto> ''[]''), writes := writes d @ [(p, ''[]'')]\<rparr>"
  shows "readData p d = (Inr (JArr []), d1)
       \<and> files d1 p = Some ''[]''
       \<and> readData_try p d1 = Inr (JArr [])
       \<and> readData p d1 = (Inr (JArr []), d1)"
proof -
  have 1: "readData p d = (Inr (JArr []), d1)"
    unfolding assms(2) using assms(1) by (rule readData_absent)
  have 2: "files d1 p = Some ''[]''" by (simp add: assms(2))
  have 3: "readData_try p d1 = Inr (JArr [])"
    by (simp add: readData_try_def fs_access_def fs_readFile_def parse_empty_array 2)
  have 4: "readData p d1 = (Inr (JArr []), d1)"
    using 2 parse_empty_array by (rule readData_parsed)
  from 1 2 3 4 show ?thesis by simp
qed

theorem load_creates_missing_storage_witness:
  "readData menuFilePath no_files =
     (Inr (JArr []), \<lparr>files = [menuFilePath \<mapsto> ''[]''], writes = [(menuFilePath, ''[]'')]\<rparr>)
   \<and> readData menuFilePath \<lparr>files = [menuFilePath \<mapsto> ''[]''], writes = [(menuFilePath, ''[]'')]\<rparr> =
     (Inr (JArr []), \<lparr>files = [menuFilePath \<mapsto> ''[]''], writes = [(menuFilePath, ''[]'')]\<rparr>)"
  using load_creates_missing_storage [of no_files menuFilePath
      "\<lparr>files = [menuFilePath \<mapsto> ''[]''], writes = [(menuFilePath, ''[]'')]\<rparr>"]
  by (simp add: no_files_def)

section \<open>The menu secret\<close>

text \<open>
  C4. An update-menu request whose \<open>password\<close> is not exactly the configured secret
  (another value, or none) is answered 401 Unauthorized, and the disk, the menu file with
  it, is left as it was: nothing is written.
\<close>

theorem update_menu_wrong_secret:
  "obj_get body ''password'' \<noteq> JStr ''themomchef@123'' \<Longrightarrow>
   post_update_menu body d = (Json 401 (message ''Unauthorized''), d)"
  by (simp add: post_update_menu_def strict_eq_JStr Let_def)

theorem update_menu_wrong_secret_witness:
  "post_update_menu [(''password'', JStr ''themomchef@124''), (''menu'', JArr [])] no_files =
     (Json 401 (message ''Unauthorized''), no_files)"
  by (rule update_menu_wrong_secret) (simp add: obj_get_def)

section \<open>Exports of an empty collection\<close>

text \<open>
  C8. When the load of its collection returns the empty sequence, each export route
  answers 200 with its plain sentence, whatever the CSV formatter is: the formatter is
  not called, and no CSV text is sent.
\<close>

theorem export_of_empty_collection:
  "(readData ordersFilePath d = (Inr (JArr []), d1) \<longrightarrow>
      get_export_orders csv d = (Send 200 ''No orders to export.'', d1))
   \<and> (readData reservationsFilePath d = (Inr (JArr []), d1) \<longrightarrow>
      get_export_reservations csv d = (Send 200 ''No reservations to export.'', d1))
   \<and> (readData customersFilePath d = (Inr (JArr []), d1) \<longrightarrow>
      get_export_customers csv d = (Send 200 ''No customers to export.'', d1))"
  by (simp add: get_export_orders_def get_export_reservations_def get_export_customers_def
      length_is_zero_def Let_def)

theorem export_of_empty_collection_witness:
  "get_export_orders (\<lambda>v. Inl TypeError)
     \<lparr>files = [ordersFilePath \<mapsto> [], reservationsFilePath \<mapsto> [], customersFilePath \<mapsto> []], writes = []\<rparr> =
     (Send 200 ''No orders to export.'',
      \<lparr>files = [ordersFilePath \<mapsto> [], reservationsFilePath \<mapsto> [], customersFilePath \<mapsto> []], writes = []\<rparr>)
   \<and> get_export_reservations (\<lambda>v. Inl TypeError)
     \<lparr>files = [ordersFilePath \<mapsto> [], reservationsFilePath \<mapsto> [], customersFilePath \<mapsto> []], writes = []\<rparr> =
     (Send 200 ''No reservations to export.'',
      \<lparr>files = [ordersFilePath \<mapsto> [], reservationsFilePath \<mapsto> [], customersFilePath \<mapsto> []], writes = []\<rparr>)
   \<and> get_export_customers (\<lambda>v. Inl TypeError)
     \<lparr>files = [ordersFilePath \<mapsto> [], reservationsFilePath \<mapsto> [], customersFilePath \<mapsto> []], writes = []\<rparr> =
     (Send 200 ''No customers to export.'',
      \<lparr>files = [ordersFilePath \<mapsto> [], reservationsFilePath \<mapsto> [], customersFilePath \<mapsto> []], writes = []\<rparr>)"
proof -
  let ?d = "\<lparr>files = [ordersFilePath \<mapsto> [], reservationsFilePath \<mapsto> [], customersFilePath \<mapsto> []],
            writes = []\<rparr>"
  have o: "readData ordersFilePath ?d = (Inr (JArr []), ?d)"
    by (rule readData_empty_text)
      (simp add: ordersFilePath_def reservationsFilePath_def customersFilePath_def)
  have r: "readData reservationsFilePath ?d = (Inr (JArr []), ?d)"
    by (rule readData_empty_text)
      (simp add: ordersFilePath_def reservationsFilePath_def customersFilePath_def)
  have c: "readData customersFilePath ?d = (Inr (JArr []), ?d)"
    by (rule readData_empty_text)
      (simp add: ordersFilePath_def reservationsFilePath_def customersFilePath_def)
  from export_of_empty_collection [of ?d ?d "\<lambda>v. Inl TypeError"] o r c
  show ?thesis by blast
qed

section \<open>Signup\<close>

lemma find_email_found:
  "\<forall>c \<in> set cs. is_object c \<Longrightarrow> JObj ps \<in> set cs \<Longrightarrow> strict_eq (obj_get ps ''email'') email
   \<Longrightarrow> \<exists>c. find_email cs email = Inr c \<and> truthy c"
proof (induction cs)
  case Nil
  then show ?case by simp
next
  case (Cons c cs)
  from Cons.prems(1) obtain qs where c: "c = JObj qs" by (cases c) auto
  show ?case
  proof (cases "strict_eq (obj_get qs ''email'') email")
    case True
    then show ?thesis by (simp add: c)
  next
    case False
    with Cons.prems c have "JObj ps \<in> set cs" by auto
    with Cons.IH Cons.prems False show ?thesis by (simp add: c)
  qed
qed

text \<open>
  C3. When the load of the customer collection returns records (objects) one of which has
  an \<open>email\<close> that is \<open>===\<close> to the request's (for strings: the same characters, case
  included), the signup is answered 400 with the duplicate-email message and the disk is
  left as it was: no record is appended and nothing is written.
\<close>

theorem signup_duplicate_email:
  assumes load: "readData customersFilePath d = (Inr (JArr customers), d0)"
    and records: "\<forall>c \<in> set customers. is_object c"
    and existing: "JObj ps \<in> set customers"
    and same: "strict_eq (obj_get ps ''email'') (obj_get body ''email'')"
  shows "post_signup clk body d =
           (Json 400 (message ''A customer with this email already exists.''), d)"
proof -
  from existing have ne: "customers \<noteq> []" by auto
  from readData_cases [OF load] ne have d0: "d0 = d" by auto
  from find_email_found [OF records existing same]
  obtain c where c: "find_email customers (obj_get body ''email'') = Inr c" "truthy c" by blast
  show ?thesis
    by (simp add: post_signup_def load d0 c Let_def)
qed

theorem signup_duplicate_email_witness:
  "post_signup clock0 [(''name'', JStr ''Asha''), (''email'', JStr ''a@x.com'')]
     \<lparr>files = [customersFilePath \<mapsto> ''[{'' @ quote_json ''email'' @ '':'' @ quote_json ''a@x.com'' @ ''}]''],
      writes = []\<rparr> =
   (Json 400 (message ''A customer with this email already exists.''),
    \<lparr>files = [customersFilePath \<mapsto> ''[{'' @ quote_json ''email'' @ '':'' @ quote_json ''a@x.com'' @ ''}]''],
     writes = []\<rparr>)"
proof -
  let ?t = "''[{'' @ quote_json ''email'' @ '':'' @ quote_json ''a@x.com'' @ ''}]''"
  let ?d = "\<lparr>files = [customersFilePath \<mapsto> ?t], writes = []\<rparr>"
  have parse: "JSON_parse ?t = Inr (JArr [JObj [(''email'', JStr ''a@x.com'')]])"
    by code_simp
  have load: "readData customersFilePath ?d = (Inr (JArr [JObj [(''email'', JStr ''a@x.com'')]]), ?d)"
    by (rule readData_parsed [OF _ parse]) simp
  show ?thesis
    by (rule signup_duplicate_email [OF load, of "[(''email'', JStr ''a@x.com'')]"])
      (simp_all add: obj_get_def)
qed

text \<open>
  C9. Two signup requests whose bodies agree on every property but \<open>password\<close>, handled
  on the same disk with the same clock, give the same response and the same disk: the
  password reaches neither the stored collection nor the client.
\<close>

theorem signup_password_independent:
  assumes "\<forall>k. k \<noteq> ''password'' \<longrightarrow> obj_get b1 k = obj_get b2 k"
  shows "post_signup clk b1 d = post_signup clk b2 d"
proof -
  have "obj_get b1 k = obj_get b2 k" if "k \<noteq> ''password''" for k using assms that by blast
  then show ?thesis by (simp add: post_signup_def)
qed

theorem signup_password_independent_witness:
  "post_signup clock0 [(''email'', JStr ''a@x.com''), (''password'', JStr ''one'')] no_files =
   post_signup clock0 [(''email'', JStr ''a@x.com''), (''password'', JStr ''two'')] no_files"
  by (rule signup_password_independent) (simp add: obj_get_def)

section \<open>Saving and loading\<close>

lemma write_then_read:
  assumes "json_ok v"
  shows "\<exists>t. JSON_stringify v = Some t
           \<and> writeData p v d = (Inr (), d\<lparr>files := (files d)(p \<mapsto> t), writes := writes d @ [(p, t)]\<rparr>)
           \<and> readData p (d\<lparr>files := (files d)(p \<mapsto> t), writes := writes d @ [(p, t)]\<rparr>)
               = (Inr v, d\<lparr>files := (files d)(p \<mapsto> t), writes := writes d @ [(p, t)]\<rparr>)"
proof -
  from stringify_then_parse [OF assms]
  obtain t where t: "JSON_stringify v = Some t" "t \<noteq> []" "JSON_parse t = Inr v" by blast
  let ?d1 = "d\<lparr>files := (files d)(p \<mapsto> t), writes := writes d @ [(p, t)]\<rparr>"
  have w: "writeData p v d = (Inr (), ?d1)" by (simp add: writeData_def fs_writeFile_def t)
  have "files ?d1 p = Some t" by simp
  then have r: "readData p ?d1 = (Inr v, ?d1)" using t(3) by (rule readData_parsed)
  from t(1) w r show ?thesis by blast
qed

lemma readData_json_ok:
  assumes "readData p d = (Inr v, d0)"
  shows "json_ok v"
  using readData_cases [OF assms] JSON_parse_ok by auto

text \<open>Leaving out the properties that are \<open>undefined\<close> does not change the text written.\<close>

lemma serialize_props_defined: "serialize_props k (defined_props ps) = serialize_props k ps"
proof (induction ps)
  case Nil
  show ?case by (simp add: defined_props_def)
next
  case (Cons p ps)
  then show ?case
    by (cases "snd p = JUndefined") (simp_all add: defined_props_def split: option.splits)
qed

lemma serialize_defined: "serialize k (JObj (defined_props ps)) = serialize k (JObj ps)"
  by (simp add: serialize_props_defined)

lemma serialize_elems_append:
  "serialize_elems k (xs @ ys) = serialize_elems k xs @ serialize_elems k ys"
  by (induction xs) simp_all

lemma stringify_append_defined:
  "JSON_stringify (JArr (xs @ [JObj (defined_props ps)])) = JSON_stringify (JArr (xs @ [JObj ps]))"
  unfolding JSON_stringify_def
  by (simp add: serialize_elems_append serialize_defined del: serialize.simps(7))

lemma obj_get_json_ok:
  assumes "json_ok (JObj body)"
  shows "obj_get body k = JUndefined \<or> json_ok (obj_get body k)"
proof (cases "map_of body k")
  case None
  then show ?thesis by (simp add: obj_get_def)
next
  case (Some v)
  then have "(k, v) \<in> set body" by (rule map_of_SomeD)
  with assms have "json_ok v" by auto
  with Some show ?thesis by (simp add: obj_get_def)
qed

lemma defined_props_ok:
  assumes "distinct (map fst ps)" and "\<forall>p \<in> set ps. snd p = JUndefined \<or> json_ok (snd p)"
  shows "json_ok (JObj (defined_props ps))"
  using assms by (auto simp add: defined_props_def distinct_map_filter)

lemma obj_get_defined_props:
  assumes "distinct (map fst ps)"
  shows "obj_get (defined_props ps) k = obj_get ps k"
  using assms
proof (induction ps)
  case Nil
  show ?case by (simp add: defined_props_def)
next
  case (Cons p ps)
  then have ih: "obj_get (defined_props ps) k = obj_get ps k" by simp
  show ?case
  proof (cases "snd p = JUndefined")
    case False
    with ih show ?thesis by (simp add: defined_props_def obj_get_def)
  next
    case True
    show ?thesis
    proof (cases "fst p = k")
      case False
      with True ih show ?thesis by (simp add: defined_props_def obj_get_def)
    next
      case k: True
      with Cons.prems have "k \<notin> fst ` set ps" by auto
      then have "map_of ps k = None" by (simp add: map_of_eq_None_iff)
      with True k ih show ?thesis by (simp add: defined_props_def obj_get_def)
    qed
  qed
qed

lemma signup_record_distinct: "distinct (map fst (signup_record clk body))"
  by (simp add: signup_record_def)

lemma signup_record_values:
  assumes "json_ok (JObj body)"
  shows "\<forall>p \<in> set (signup_record clk body). snd p = JUndefined \<or> json_ok (snd p)"
  using obj_get_json_ok [OF assms] by (simp add: signup_record_def)

lemma stored_customer_ok:
  "json_ok (JObj body) \<Longrightarrow> json_ok (JObj (defined_props (signup_record clk body)))"
  by (intro defined_props_ok signup_record_distinct signup_record_values)

lemma find_email_none:
  "\<forall>c \<in> set cs. is_object c \<Longrightarrow>
   \<forall>ps. JObj ps \<in> set cs \<longrightarrow> \<not> strict_eq (obj_get ps ''email'') email \<Longrightarrow>
   find_email cs email = Inr JUndefined"
proof (induction cs)
  case Nil
  show ?case by simp
next
  case (Cons c cs)
  from Cons.prems(1) obtain qs where c: "c = JObj qs" by (cases c) auto
  with Cons.prems(2) have "\<not> strict_eq (obj_get qs ''email'') email" by simp
  with Cons c show ?case by simp
qed

text \<open>A signup with a new email: the response, and what the next load returns.\<close>

lemma signup_appends:
  assumes load: "readData customersFilePath d = (Inr (JArr customers), d0)"
    and records: "\<forall>c \<in> set customers. is_object c"
    and fresh: "\<forall>ps. JObj ps \<in> set customers \<longrightarrow>
                  \<not> strict_eq (obj_get ps ''email'') (obj_get body ''email'')"
    and body: "json_ok (JObj body)"
  shows "\<exists>d1. post_signup clk body d =
                 (Json 201 (JObj [(''message'', JStr ''Customer registered successfully!''),
                                  (''customer'', JObj (signup_record clk body))]), d1)
             \<and> readData customersFilePath d1 =
                 (Inr (JArr (customers @ [JObj (defined_props (signup_record clk body))])), d1)"
proof -
  let ?new = "JObj (signup_record clk body)"
  let ?stored = "JObj (defined_props (signup_record clk body))"
  have none: "find_email customers (obj_get body ''email'') = Inr JUndefined"
    using records fresh by (rule find_email_none)
  from load have "json_ok (JArr customers)" by (rule readData_json_ok)
  with stored_customer_ok [OF body, of clk] have "json_ok (JArr (customers @ [?stored]))" by simp
  from write_then_read [OF this, of customersFilePath d0]
  obtain t where t: "JSON_stringify (JArr (customers @ [?stored])) = Some t"
    and rd: "readData customersFilePath
               (d0\<lparr>files := (files d0)(customersFilePath \<mapsto> t), writes := writes d0 @ [(customersFilePath, t)]\<rparr>)
             = (Inr (JArr (customers @ [?stored])),
                d0\<lparr>files := (files d0)(customersFilePath \<mapsto> t), writes := writes d0 @ [(customersFilePath, t)]\<rparr>)"
    by blast
  let ?d1 = "d0\<lparr>files := (files d0)(customersFilePath \<mapsto> t), writes := writes d0 @ [(customersFilePath, t)]\<rparr>"
  have "JSON_stringify (JArr (customers @ [?new])) = Some t"
    using t by (simp add: stringify_append_defined)
  then have wr: "writeData customersFilePath (JArr (customers @ [?new])) d0 = (Inr (), ?d1)"
    by (simp add: writeData_def fs_writeFile_def)
  have new: "JObj [(''id'', JNum (now clk)), (''name'', obj_get body ''name''),
                   (''email'', obj_get body ''email''), (''phone'', obj_get body ''phone''),
                   (''street'', obj_get body ''street''), (''city'', obj_get body ''city''),
                   (''state'', obj_get body ''state''), (''pincode'', obj_get body ''pincode''),
                   (''dob'', obj_get body ''dob''), (''signupDate'', JStr (iso clk))] = ?new"
    by (simp add: signup_record_def)
  have "post_signup clk body d =
          (Json 201 (JObj [(''message'', JStr ''Customer registered successfully!''),
                           (''customer'', ?new)]), ?d1)"
    unfolding post_signup_def Let_def new by (simp add: load none wr)
  with rd show ?thesis by blast
qed

lemma obj_get_obj_set: "obj_get (obj_set k' v t) k = (if k = k' then v else obj_get t k)"
  by (induction t) (auto simp add: obj_get_def)

lemma obj_get_Cons: "obj_get (p # b) k = (if fst p = k then snd p else obj_get b k)"
  by (cases p) (simp add: obj_get_def)

lemma obj_get_obj_spread:
  assumes "distinct (map fst b)"
  shows "obj_get (obj_spread t b) k = (if k \<in> fst ` set b then obj_get b k else obj_get t k)"
  using assms
proof (induction b arbitrary: t)
  case Nil
  show ?case by simp
next
  case (Cons p b)
  from Cons.prems have d: "distinct (map fst b)" and p: "fst p \<notin> fst ` set b" by auto
  have "obj_get (obj_spread t (p # b)) k = obj_get (obj_spread (obj_set (fst p) (snd p) t) b) k"
    by simp
  also have "\<dots> = (if k \<in> fst ` set b then obj_get b k
                     else obj_get (obj_set (fst p) (snd p) t) k)"
    using d by (rule Cons.IH)
  also have "\<dots> = (if k \<in> fst ` set (p # b) then obj_get (p # b) k else obj_get t k)"
    using p by (auto simp add: obj_get_obj_set obj_get_Cons)
  finally show ?case .
qed

lemma json_ok_obj_spread:
  "json_ok (JObj t) \<Longrightarrow> \<forall>p \<in> set b. json_ok (snd p) \<Longrightarrow> json_ok (JObj (obj_spread t b))"
proof (induction b arbitrary: t)
  case Nil
  then show ?case by simp
next
  case (Cons p b)
  from Cons.prems have "json_ok (JObj (obj_set (fst p) (snd p) t))"
    by (intro json_ok_obj_set) simp_all
  with Cons show ?case by simp
qed

lemma new_record_ok: "json_ok (JObj body) \<Longrightarrow> json_ok (new_record clk body)"
  unfolding new_record_def by (rule json_ok_obj_spread) simp_all

lemma order_appends:
  assumes load: "readData ordersFilePath d = (Inr (JArr orders), d0)"
    and body: "json_ok (JObj body)"
  shows "\<exists>d1. post_orders clk body d =
                 (Json 201 (JObj [(''message'', JStr ''Order received!''),
                                  (''order'', new_record clk body)]), d1)
             \<and> readData ordersFilePath d1 = (Inr (JArr (orders @ [new_record clk body])), d1)"
proof -
  from load have "json_ok (JArr orders)" by (rule readData_json_ok)
  with new_record_ok [OF body, of clk] have "json_ok (JArr (orders @ [new_record clk body]))"
    by simp
  from write_then_read [OF this, of ordersFilePath d0]
  obtain d1 where "writeData ordersFilePath (JArr (orders @ [new_record clk body])) d0 = (Inr (), d1)"
    and "readData ordersFilePath d1 = (Inr (JArr (orders @ [new_record clk body])), d1)"
    by blast
  then show ?thesis by (simp add: post_orders_def Let_def load)
qed

lemma reservation_appends:
  assumes load: "readData reservationsFilePath d = (Inr (JArr reservations), d0)"
    and body: "json_ok (JObj body)"
  shows "\<exists>d1. post_reservations clk body d =
                 (Json 201 (JObj [(''message'', JStr ''Reservation received!''),
                                  (''reservation'', new_record clk body)]), d1)
             \<and> readData reservationsFilePath d1 =
                 (Inr (JArr (reservations @ [new_record clk body])), d1)"
proof -
  from load have "json_ok (JArr reservations)" by (rule readData_json_ok)
  with new_record_ok [OF body, of clk]
  have "json_ok (JArr (reservations @ [new_record clk body]))" by simp
  from write_then_read [OF this, of reservationsFilePath d0]
  obtain d1 where
    "writeData reservationsFilePath (JArr (reservations @ [new_record clk body])) d0 = (Inr (), d1)"
    and "readData reservationsFilePath d1 = (Inr (JArr (reservations @ [new_record clk body])), d1)"
    by blast
  then show ?thesis by (simp add: post_reservations_def Let_def load)
qed

text \<open>The \<open>id\<close> and \<open>date\<close> of the record: the body's when it has the key.\<close>

lemma new_record_fields:
  assumes "json_ok (JObj body)"
  shows "\<exists>ps. new_record clk body = JObj ps
           \<and> obj_get ps ''id'' = (if ''id'' \<in> fst ` set body then obj_get body ''id'' else JNum (now clk))
           \<and> obj_get ps ''date'' = (if ''date'' \<in> fst ` set body then obj_get body ''date'' else JStr (iso clk))"
proof -
  from assms have d: "distinct (map fst body)" by simp
  show ?thesis
    unfolding new_record_def
    by (simp add: obj_get_obj_spread [OF d] obj_get_Cons)
qed

lemma signup_twice:
  assumes empty: "readData customersFilePath d = (Inr (JArr []), d0)"
    and b1: "json_ok (JObj b1)" and b2: "json_ok (JObj b2)"
    and e1: "obj_get b1 ''email'' = JStr ''a@x.com''"
    and e2: "obj_get b2 ''email'' = JStr ''b@x.com''"
  shows "\<exists>d1 d2. post_signup c1 b1 d =
                 (Json 201 (JObj [(''message'', JStr ''Customer registered successfully!''),
                                  (''customer'', JObj (signup_record c1 b1))]), d1)
             \<and> post_signup c2 b2 d1 =
                 (Json 201 (JObj [(''message'', JStr ''Customer registered successfully!''),
                                  (''customer'', JObj (signup_record c2 b2))]), d2)
             \<and> readData customersFilePath d2 =
                 (Inr (JArr [JObj (defined_props (signup_record c1 b1)),
                             JObj (defined_props (signup_record c2 b2))]), d2)"
proof -
  let ?r1 = "defined_props (signup_record c1 b1)"
  from signup_appends [OF empty _ _ b1, of c1]
  obtain d1 where s1: "post_signup c1 b1 d =
                 (Json 201 (JObj [(''message'', JStr ''Customer registered successfully!''),
                                  (''customer'', JObj (signup_record c1 b1))]), d1)"
    and l1: "readData customersFilePath d1 = (Inr (JArr ([] @ [JObj ?r1])), d1)"
    by auto
  have "obj_get ?r1 ''email'' = obj_get (signup_record c1 b1) ''email''"
    using signup_record_distinct by (rule obj_get_defined_props)
  then have em: "obj_get ?r1 ''email'' = JStr ''a@x.com''"
    by (simp add: signup_record_def obj_get_def e1 [unfolded obj_get_def])
  have fresh: "\<forall>ps. JObj ps \<in> set ([] @ [JObj ?r1]) \<longrightarrow>
                 \<not> strict_eq (obj_get ps ''email'') (obj_get b2 ''email'')"
    by (simp add: em e2)
  from signup_appends [OF l1 _ fresh b2, of c2]
  obtain d2 where s2: "post_signup c2 b2 d1 =
                 (Json 201 (JObj [(''message'', JStr ''Customer registered successfully!''),
                                  (''customer'', JObj (signup_record c2 b2))]), d2)"
    and l2: "readData customersFilePath d2 =
               (Inr (JArr (([] @ [JObj ?r1]) @ [JObj (defined_props (signup_record c2 b2))])), d2)"
    by auto
  from s1 s2 l2 show ?thesis by simp
qed

section \<open>Round trip of the record store\<close>

text \<open>
  Within the values of this model (integer numbers, code units below 256), saving a
  JSON value (a sequence of records in particular) to a collection and
  loading the collection returns that value: the save succeeds, the file holds the
  serialization, and the load returns the value without touching the disk again. And what
  a load returned is a fixed point: saving it back and loading again returns the same
  value.
\<close>

lemma save_then_load:
  "(json_ok v \<longrightarrow>
      (\<exists>d1. writeData p v d = (Inr (), d1) \<and> files d1 p = JSON_stringify v
            \<and> readData p d1 = (Inr v, d1)))
   \<and> (readData p d = (Inr w, d0) \<longrightarrow>
      (\<exists>d1. writeData p w d0 = (Inr (), d1) \<and> readData p d1 = (Inr w, d1)))"
proof (intro conjI impI)
  assume "json_ok v"
  from write_then_read [OF this, of p d]
  show "\<exists>d1. writeData p v d = (Inr (), d1) \<and> files d1 p = JSON_stringify v
            \<and> readData p d1 = (Inr v, d1)"
    by auto
next
  assume "readData p d = (Inr w, d0)"
  then have "json_ok w" by (rule readData_json_ok)
  from write_then_read [OF this, of p d0]
  show "\<exists>d1. writeData p w d0 = (Inr (), d1) \<and> readData p d1 = (Inr w, d1)"
    by blast
qed

lemma save_then_load_witness:
  "(\<exists>d1. writeData ordersFilePath (JArr [JObj [(''item'', JStr ''Dal''), (''qty'', JNum 2)]]) no_files
            = (Inr (), d1)
         \<and> files d1 ordersFilePath = JSON_stringify (JArr [JObj [(''item'', JStr ''Dal''), (''qty'', JNum 2)]])
         \<and> readData ordersFilePath d1 = (Inr (JArr [JObj [(''item'', JStr ''Dal''), (''qty'', JNum 2)]]), d1))
   \<and> readData ordersFilePath
        \<lparr>files = [ordersFilePath \<mapsto> ''[{'' @ quote_json ''qty'' @ '': 2}]''], writes = []\<rparr> =
       (Inr (JArr [JObj [(''qty'', JNum 2)]]),
        \<lparr>files = [ordersFilePath \<mapsto> ''[{'' @ quote_json ''qty'' @ '': 2}]''], writes = []\<rparr>)
   \<and> (\<exists>d1. writeData ordersFilePath (JArr [JObj [(''qty'', JNum 2)]])
              \<lparr>files = [ordersFilePath \<mapsto> ''[{'' @ quote_json ''qty'' @ '': 2}]''], writes = []\<rparr> = (Inr (), d1)
         \<and> readData ordersFilePath d1 = (Inr (JArr [JObj [(''qty'', JNum 2)]]), d1))"
proof -
  let ?t = "''[{'' @ quote_json ''qty'' @ '': 2}]''"
  let ?d = "\<lparr>files = [ordersFilePath \<mapsto> ?t], writes = []\<rparr>"
  have ok: "json_ok (JArr [JObj [(''item'', JStr ''Dal''), (''qty'', JNum 2)]])" by simp
  have parse: "JSON_parse ?t = Inr (JArr [JObj [(''qty'', JNum 2)]])" by code_simp
  have load: "readData ordersFilePath ?d = (Inr (JArr [JObj [(''qty'', JNum 2)]]), ?d)"
    by (rule readData_parsed [OF _ parse]) simp
  from save_then_load [of "JArr [JObj [(''item'', JStr ''Dal''), (''qty'', JNum 2)]]"
      ordersFilePath no_files] ok
  have 1: "\<exists>d1. writeData ordersFilePath (JArr [JObj [(''item'', JStr ''Dal''), (''qty'', JNum 2)]]) no_files
            = (Inr (), d1)
         \<and> files d1 ordersFilePath = JSON_stringify (JArr [JObj [(''item'', JStr ''Dal''), (''qty'', JNum 2)]])
         \<and> readData ordersFilePath d1 = (Inr (JArr [JObj [(''item'', JStr ''Dal''), (''qty'', JNum 2)]]), d1)"
    by blast
  from save_then_load [of _ ordersFilePath ?d "JArr [JObj [(''qty'', JNum 2)]]" ?d] load
  have 2: "\<exists>d1. writeData ordersFilePath (JArr [JObj [(''qty'', JNum 2)]]) ?d = (Inr (), d1)
         \<and> readData ordersFilePath d1 = (Inr (JArr [JObj [(''qty'', JNum 2)]]), d1)"
    by blast
  from 1 load 2 show ?thesis by blast
qed

section \<open>Replacing the menu\<close>

text \<open>
  Within the values of this model, with the right secret, update-menu writes whatever
  JSON value the request gives as \<open>menu\<close> (an array, but just as well an object, a string or a number: no shape is
  checked) as the whole content of the menu file, and the next \<open>GET /api/menu\<close> answers
  with exactly that value.
\<close>

lemma update_menu_stores_value:
  assumes "obj_get body ''password'' = JStr ''themomchef@123''"
    and "json_ok (obj_get body ''menu'')"
  shows "\<exists>d1. post_update_menu body d = (Json 200 (message ''Menu updated successfully!''), d1)
           \<and> files d1 menuFilePath = JSON_stringify (obj_get body ''menu'')
           \<and> get_menu d1 = (Json 200 (obj_get body ''menu''), d1)"
proof -
  from write_then_read [OF assms(2), of menuFilePath d]
  obtain d1 where "writeData menuFilePath (obj_get body ''menu'') d = (Inr (), d1)"
    and "files d1 menuFilePath = JSON_stringify (obj_get body ''menu'')"
    and "readData menuFilePath d1 = (Inr (obj_get body ''menu''), d1)"
    by auto
  then show ?thesis
    by (simp add: post_update_menu_def get_menu_def Let_def assms(1))
qed

lemma update_menu_stores_value_witness:
  "\<exists>d1. post_update_menu [(''password'', JStr ''themomchef@123''), (''menu'', JObj [(''closed'', JBool True)])]
           no_files = (Json 200 (message ''Menu updated successfully!''), d1)
        \<and> files d1 menuFilePath = JSON_stringify (JObj [(''closed'', JBool True)])
        \<and> get_menu d1 = (Json 200 (JObj [(''closed'', JBool True)]), d1)"
  using update_menu_stores_value
    [of "[(''password'', JStr ''themomchef@123''), (''menu'', JObj [(''closed'', JBool True)])]" no_files]
  by (simp add: obj_get_def)

section \<open>Signup with a new email\<close>

text \<open>
  C5. When the load of the customer collection returns records none of which has an
  \<open>email\<close> that is \<open>===\<close> to the request's, the signup is answered 201 with the new
  customer, and the next load returns the prior records, unchanged and in place, followed
  by exactly one new record: the new customer without its \<open>undefined\<close> properties. Its
  \<open>id\<close> and \<open>signupDate\<close> are the clock readings of the request, whatever the body
  holds under those keys. The body is any JSON object, as \<open>express.json()\<close> delivers it.
\<close>

theorem signup_new_email:
  assumes "readData customersFilePath d = (Inr (JArr customers), d0)"
    and "\<forall>c \<in> set customers. is_object c"
    and "\<forall>ps. JObj ps \<in> set customers \<longrightarrow>
           \<not> strict_eq (obj_get ps ''email'') (obj_get body ''email'')"
    and "json_ok (JObj body)"
  shows "\<exists>d1 stored.
           post_signup clk body d =
             (Json 201 (JObj [(''message'', JStr ''Customer registered successfully!''),
                              (''customer'', JObj (signup_record clk body))]), d1)
         \<and> readData customersFilePath d1 = (Inr (JArr (customers @ [JObj stored])), d1)
         \<and> length (customers @ [JObj stored]) = length customers + 1
         \<and> stored = defined_props (signup_record clk body)
         \<and> obj_get stored ''id'' = JNum (now clk)
         \<and> obj_get stored ''signupDate'' = JStr (iso clk)
         \<and> obj_get (signup_record clk body) ''id'' = JNum (now clk)
         \<and> obj_get (signup_record clk body) ''signupDate'' = JStr (iso clk)"
proof -
  have id: "obj_get (signup_record clk body) ''id'' = JNum (now clk)"
    by (simp add: signup_record_def obj_get_def)
  have date: "obj_get (signup_record clk body) ''signupDate'' = JStr (iso clk)"
    by (simp add: signup_record_def obj_get_def)
  have "obj_get (defined_props (signup_record clk body)) k = obj_get (signup_record clk body) k" for k
    using signup_record_distinct by (rule obj_get_defined_props)
  with id date signup_appends [OF assms, of clk] show ?thesis by auto
qed

theorem signup_new_email_witness:
  "\<exists>d1 stored.
     post_signup clock0 [(''id'', JNum 1), (''email'', JStr ''b@x.com''), (''signupDate'', JStr ''never'')]
       \<lparr>files = [customersFilePath \<mapsto> ''[{'' @ quote_json ''email'' @ '':'' @ quote_json ''a@x.com'' @ ''}]''],
        writes = []\<rparr> =
       (Json 201 (JObj [(''message'', JStr ''Customer registered successfully!''),
                        (''customer'', JObj (signup_record clock0
                           [(''id'', JNum 1), (''email'', JStr ''b@x.com''), (''signupDate'', JStr ''never'')]))]), d1)
   \<and> readData customersFilePath d1 =
       (Inr (JArr ([JObj [(''email'', JStr ''a@x.com'')]] @ [JObj stored])), d1)
   \<and> obj_get stored ''id'' = JNum 1700000000000
   \<and> obj_get stored ''signupDate'' = JStr ''2023-11-14T22:13:20.000Z''"
proof -
  let ?t = "''[{'' @ quote_json ''email'' @ '':'' @ quote_json ''a@x.com'' @ ''}]''"
  let ?d = "\<lparr>files = [customersFilePath \<mapsto> ?t], writes = []\<rparr>"
  let ?body = "[(''id'', JNum 1), (''email'', JStr ''b@x.com''), (''signupDate'', JStr ''never'')]"
  have parse: "JSON_parse ?t = Inr (JArr [JObj [(''email'', JStr ''a@x.com'')]])"
    by code_simp
  have load: "readData customersFilePath ?d = (Inr (JArr [JObj [(''email'', JStr ''a@x.com'')]]), ?d)"
    by (rule readData_parsed [OF _ parse]) simp
  have records: "\<forall>c \<in> set [JObj [(''email'', JStr ''a@x.com'')]]. is_object c" by simp
  have fresh: "\<forall>ps. JObj ps \<in> set [JObj [(''email'', JStr ''a@x.com'')]] \<longrightarrow>
                 \<not> strict_eq (obj_get ps ''email'') (obj_get ?body ''email'')"
    by (simp add: obj_get_def)
  have body: "json_ok (JObj ?body)" by simp
  from signup_new_email [OF load records fresh body, of clock0]
  show ?thesis by (auto simp add: clock0_def)
qed

section \<open>Orders and reservations\<close>

text \<open>
  C1, as the code has it. For every body (a JSON object, as \<open>express.json()\<close> delivers
  it), the record of an order or a reservation is
  \<open>{id: Date.now(), date: new Date().toISOString()}\<close> with the properties of the body
  spread over it: it is what the response carries and what the next load returns as the
  last element, after the prior ones. Its \<open>id\<close> is the body's \<open>id\<close> when the body has that
  key and the clock's otherwise, and likewise its \<open>date\<close>: the caller's keys take
  precedence in the merge, the generated values stand only for keys the body lacks.
\<close>

theorem submitted_record_merge:
  assumes "json_ok (JObj body)"
  shows "(readData ordersFilePath d = (Inr (JArr orders), d0) \<longrightarrow>
            (\<exists>d1. post_orders clk body d =
                     (Json 201 (JObj [(''message'', JStr ''Order received!''),
                                      (''order'', new_record clk body)]), d1)
                 \<and> readData ordersFilePath d1 = (Inr (JArr (orders @ [new_record clk body])), d1)))
       \<and> (readData reservationsFilePath d = (Inr (JArr reservations), d0') \<longrightarrow>
            (\<exists>d1. post_reservations clk body d =
                     (Json 201 (JObj [(''message'', JStr ''Reservation received!''),
                                      (''reservation'', new_record clk body)]), d1)
                 \<and> readData reservationsFilePath d1 =
                     (Inr (JArr (reservations @ [new_record clk body])), d1)))
       \<and> (\<exists>ps. new_record clk body = JObj ps
                \<and> obj_get ps ''id'' =
                    (if ''id'' \<in> fst ` set body then obj_get body ''id'' else JNum (now clk))
                \<and> obj_get ps ''date'' =
                    (if ''date'' \<in> fst ` set body then obj_get body ''date'' else JStr (iso clk)))"
  using order_appends [OF _ assms, of d orders d0 clk]
    reservation_appends [OF _ assms, of d reservations d0' clk]
    new_record_fields [OF assms, of clk]
  by blast

theorem submitted_record_merge_witness:
  "(\<exists>d1. post_orders clock0 [(''id'', JNum 7), (''item'', JStr ''Dal'')] no_files =
            (Json 201 (JObj [(''message'', JStr ''Order received!''),
                             (''order'', new_record clock0 [(''id'', JNum 7), (''item'', JStr ''Dal'')])]), d1)
         \<and> readData ordersFilePath d1 =
             (Inr (JArr ([] @ [new_record clock0 [(''id'', JNum 7), (''item'', JStr ''Dal'')]])), d1))
   \<and> (\<exists>d1. post_reservations clock0 [(''id'', JNum 7), (''item'', JStr ''Dal'')] no_files =
            (Json 201 (JObj [(''message'', JStr ''Reservation received!''),
                             (''reservation'', new_record clock0 [(''id'', JNum 7), (''item'', JStr ''Dal'')])]), d1)
         \<and> readData reservationsFilePath d1 =
             (Inr (JArr ([] @ [new_record clock0 [(''id'', JNum 7), (''item'', JStr ''Dal'')]])), d1))
   \<and> (\<exists>ps. new_record clock0 [(''id'', JNum 7), (''item'', JStr ''Dal'')] = JObj ps
         \<and> obj_get ps ''id'' = JNum 7
         \<and> obj_get ps ''date'' = JStr ''2023-11-14T22:13:20.000Z'')"
proof -
  let ?body = "[(''id'', JNum 7), (''item'', JStr ''Dal'')]"
  have body: "json_ok (JObj ?body)" by simp
  have "files no_files ordersFilePath = None" by (simp add: no_files_def)
  from readData_absent [OF this] obtain d0 where
    o: "readData ordersFilePath no_files = (Inr (JArr []), d0)" by blast
  have "files no_files reservationsFilePath = None" by (simp add: no_files_def)
  from readData_absent [OF this] obtain d0' where
    r: "readData reservationsFilePath no_files = (Inr (JArr []), d0')" by blast
  from submitted_record_merge [OF body, of no_files "[]" d0 clock0 "[]" d0'] o r
  show ?thesis by (simp add: obj_get_def clock0_def)
qed

text \<open>
  C1, as the specification states it, fails: an order whose body has \<open>id: 7\<close> is stored
  and returned with \<open>id\<close> 7, the caller's value, and not with the clock reading
  1700000000000 of the request.
\<close>

theorem order_keeps_caller_id_counterexample:
  "fst (post_orders clock0 [(''id'', JNum 7), (''item'', JStr ''Dal'')] no_files) =
      Json 201 (JObj [(''message'', JStr ''Order received!''),
                      (''order'', JObj [(''id'', JNum 7), (''date'', JStr ''2023-11-14T22:13:20.000Z''),
                                        (''item'', JStr ''Dal'')])])
   \<and> fst (readData ordersFilePath
            (snd (post_orders clock0 [(''id'', JNum 7), (''item'', JStr ''Dal'')] no_files))) =
      Inr (JArr [JObj [(''id'', JNum 7), (''date'', JStr ''2023-11-14T22:13:20.000Z''),
                       (''item'', JStr ''Dal'')]])
   \<and> now clock0 = 1700000000000
   \<and> JNum 7 \<noteq> JNum (now clock0)"
proof -
  let ?body = "[(''id'', JNum 7), (''item'', JStr ''Dal'')]"
  have body: "json_ok (JObj ?body)" by simp
  have "files no_files ordersFilePath = None" by (simp add: no_files_def)
  from readData_absent [OF this] obtain d0 where
    o: "readData ordersFilePath no_files = (Inr (JArr []), d0)" by blast
  have rec: "new_record clock0 ?body =
      JObj [(''id'', JNum 7), (''date'', JStr ''2023-11-14T22:13:20.000Z''), (''item'', JStr ''Dal'')]"
    by (simp add: new_record_def clock0_def)
  from order_appends [OF o body, of clock0] obtain d1 where
    "post_orders clock0 ?body no_files =
       (Json 201 (JObj [(''message'', JStr ''Order received!''), (''order'', new_record clock0 ?body)]), d1)"
    and "readData ordersFilePath d1 = (Inr (JArr ([] @ [new_record clock0 ?body])), d1)"
    by blast
  then show ?thesis by (simp add: rec) (simp add: clock0_def)
qed

section \<open>Two signups in a row\<close>

text \<open>
  C2, as the code has it. On an empty customer collection, a signup with email
  \<open>a@x.com\<close> followed by one with email \<open>b@x.com\<close> (the other fields of the two JSON
  bodies are arbitrary) are both answered 201, and the collection then holds exactly two
  records, in signup order, the first with email \<open>a@x.com\<close> and the second with
  \<open>b@x.com\<close>. Their ids are the \<open>Date.now()\<close> readings of the two requests: they are
  distinct exactly when the two readings differ.
\<close>

theorem two_signups_in_order:
  assumes "readData customersFilePath d = (Inr (JArr []), d0)"
    and "json_ok (JObj b1)" and "json_ok (JObj b2)"
    and "obj_get b1 ''email'' = JStr ''a@x.com''"
    and "obj_get b2 ''email'' = JStr ''b@x.com''"
  shows "\<exists>d1 d2 r1 r2.
           post_signup c1 b1 d =
             (Json 201 (JObj [(''message'', JStr ''Customer registered successfully!''),
                              (''customer'', JObj (signup_record c1 b1))]), d1)
         \<and> post_signup c2 b2 d1 =
             (Json 201 (JObj [(''message'', JStr ''Customer registered successfully!''),
                              (''customer'', JObj (signup_record c2 b2))]), d2)
         \<and> readData customersFilePath d2 = (Inr (JArr [JObj r1, JObj r2]), d2)
         \<and> obj_get r1 ''email'' = JStr ''a@x.com'' \<and> obj_get r2 ''email'' = JStr ''b@x.com''
         \<and> obj_get r1 ''id'' = JNum (now c1) \<and> obj_get r2 ''id'' = JNum (now c2)
         \<and> (obj_get r1 ''id'' = obj_get r2 ''id'') = (now c1 = now c2)"
proof -
  have get: "obj_get (defined_props (signup_record c b)) k = obj_get (signup_record c b) k" for c b k
    using signup_record_distinct by (rule obj_get_defined_props)
  have id: "obj_get (signup_record c b) ''id'' = JNum (now c)" for c b
    by (simp add: signup_record_def obj_get_def)
  have em: "obj_get (signup_record c b) ''email'' = obj_get b ''email''" for c b
    by (simp add: signup_record_def obj_get_Cons)
  from signup_twice [OF assms, of c1 c2] show ?thesis
    by (auto simp add: get id em assms(4,5))
qed

theorem two_signups_in_order_witness:
  "\<exists>d1 d2 r1 r2.
     post_signup clock0 [(''email'', JStr ''a@x.com'')] no_files =
       (Json 201 (JObj [(''message'', JStr ''Customer registered successfully!''),
                        (''customer'', JObj (signup_record clock0 [(''email'', JStr ''a@x.com'')]))]), d1)
   \<and> post_signup \<lparr>now = 1700000000001, iso = ''2023-11-14T22:13:20.001Z''\<rparr>
       [(''email'', JStr ''b@x.com'')] d1 =
       (Json 201 (JObj [(''message'', JStr ''Customer registered successfully!''),
                        (''customer'', JObj (signup_record \<lparr>now = 1700000000001, iso = ''2023-11-14T22:13:20.001Z''\<rparr>
                           [(''email'', JStr ''b@x.com'')]))]), d2)
   \<and> readData customersFilePath d2 = (Inr (JArr [JObj r1, JObj r2]), d2)
   \<and> obj_get r1 ''id'' = JNum 1700000000000 \<and> obj_get r2 ''id'' = JNum 1700000000001"
proof -
  have "files no_files customersFilePath = None" by (simp add: no_files_def)
  from readData_absent [OF this] obtain d0 where
    e: "readData customersFilePath no_files = (Inr (JArr []), d0)" by blast
  have b1: "json_ok (JObj [(''email'', JStr ''a@x.com'')])" by simp
  have b2: "json_ok (JObj [(''email'', JStr ''b@x.com'')])" by simp
  have e1: "obj_get [(''email'', JStr ''a@x.com'')] ''email'' = JStr ''a@x.com''"
    by (simp add: obj_get_def)
  have e2: "obj_get [(''email'', JStr ''b@x.com'')] ''email'' = JStr ''b@x.com''"
    by (simp add: obj_get_def)
  from two_signups_in_order [OF e b1 b2 e1 e2, of clock0
      "\<lparr>now = 1700000000001, iso = ''2023-11-14T22:13:20.001Z''\<rparr>"]
  show ?thesis by (simp add: clock0_def) blast
qed

text \<open>
  C2, as the specification states it, fails for the pair of equal clock readings: two
  signups handled within the same millisecond are both stored with the id
  1700000000000.
\<close>

theorem signups_same_tick_counterexample:
  "fst (post_signup clock0 [(''email'', JStr ''a@x.com'')] no_files) =
      Json 201 (JObj [(''message'', JStr ''Customer registered successfully!''),
                      (''customer'', JObj (signup_record clock0 [(''email'', JStr ''a@x.com'')]))])
   \<and> fst (post_signup clock0 [(''email'', JStr ''b@x.com'')]
            (snd (post_signup clock0 [(''email'', JStr ''a@x.com'')] no_files))) =
      Json 201 (JObj [(''message'', JStr ''Customer registered successfully!''),
                      (''customer'', JObj (signup_record clock0 [(''email'', JStr ''b@x.com'')]))])
   \<and> fst (readData customersFilePath
            (snd (post_signup clock0 [(''email'', JStr ''b@x.com'')]
                    (snd (post_signup clock0 [(''email'', JStr ''a@x.com'')] no_files))))) =
      Inr (JArr [JObj [(''id'', JNum 1700000000000), (''email'', JStr ''a@x.com''),
                       (''signupDate'', JStr ''2023-11-14T22:13:20.000Z'')],
                 JObj [(''id'', JNum 1700000000000), (''email'', JStr ''b@x.com''),
                       (''signupDate'', JStr ''2023-11-14T22:13:20.000Z'')]])"
proof -
  have "files no_files customersFilePath = None" by (simp add: no_files_def)
  from readData_absent [OF this] obtain d0 where
    e: "readData customersFilePath no_files = (Inr (JArr []), d0)" by blast
  have b1: "json_ok (JObj [(''email'', JStr ''a@x.com'')])" by simp
  have b2: "json_ok (JObj [(''email'', JStr ''b@x.com'')])" by simp
  have e1: "obj_get [(''email'', JStr ''a@x.com'')] ''email'' = JStr ''a@x.com''"
    by (simp add: obj_get_def)
  have e2: "obj_get [(''email'', JStr ''b@x.com'')] ''email'' = JStr ''b@x.com''"
    by (simp add: obj_get_def)
  have r1: "defined_props (signup_record clock0 [(''email'', JStr ''a@x.com'')]) =
      [(''id'', JNum 1700000000000), (''email'', JStr ''a@x.com''),
       (''signupDate'', JStr ''2023-11-14T22:13:20.000Z'')]"
    by (simp add: defined_props_def signup_record_def obj_get_def clock0_def)
  have r2: "defined_props (signup_record clock0 [(''email'', JStr ''b@x.com'')]) =
      [(''id'', JNum 1700000000000), (''email'', JStr ''b@x.com''),
       (''signupDate'', JStr ''2023-11-14T22:13:20.000Z'')]"
    by (simp add: defined_props_def signup_record_def obj_get_def clock0_def)
  from signup_twice [OF e b1 b2 e1 e2, of clock0 clock0] obtain d1 d2 where
    "post_signup clock0 [(''email'', JStr ''a@x.com'')] no_files =
       (Json 201 (JObj [(''message'', JStr ''Customer registered successfully!''),
                        (''customer'', JObj (signup_record clock0 [(''email'', JStr ''a@x.com'')]))]), d1)"
    and "post_signup clock0 [(''email'', JStr ''b@x.com'')] d1 =
       (Json 201 (JObj [(''message'', JStr ''Customer registered successfully!''),
                        (''customer'', JObj (signup_record clock0 [(''email'', JStr ''b@x.com'')]))]), d2)"
    and "readData customersFilePath d2 =
       (Inr (JArr [JObj (defined_props (signup_record clock0 [(''email'', JStr ''a@x.com'')])),
                   JObj (defined_props (signup_record clock0 [(''email'', JStr ''b@x.com'')]))]), d2)"
    by blast
  then show ?thesis by (simp add: r1 r2)
qed

end
